theory Spec2Isabelle
  imports Complex_Main "HOL-Library.AList" "HOL-Library.Sublist"
begin

section \<open>JavaScript strings\<close>

text \<open>
  A JavaScript string is a sequence of code units. The model uses \<open>string\<close>, so a
  \<open>char\<close> stands for a code unit below 256 (Latin-1). The string methods that
  \<open>index.js\<close> calls are modelled on that range: \<open>toLowerCase\<close>, \<open>trim\<close>,
  \<open>endsWith\<close>, \<open>split\<close> with a one-character separator and \<open>replace\<close> with a
  string pattern (which replaces the first occurrence only).
\<close>

definition backslash :: char where
  "backslash = CHR 0x5C"

definition lower_char :: "char \<Rightarrow> char" where
  "lower_char c =
     (let n = (of_char c :: nat) in
      if 65 \<le> n \<and> n \<le> 90 then char_of (n + 32)
      else if 192 \<le> n \<and> n \<le> 222 \<and> n \<noteq> 215 then char_of (n + 32)
      else c)"

definition toLowerCase :: "string \<Rightarrow> string" where
  "toLowerCase s = map lower_char s"

definition is_space :: "char \<Rightarrow> bool" where
  "is_space c = (of_char c \<in> {9, 10, 11, 12, 13, 32, 160 :: nat})"

definition trim :: "string \<Rightarrow> string" where
  "trim s = rev (dropWhile is_space (rev (dropWhile is_space s)))"

definition endsWith :: "string \<Rightarrow> string \<Rightarrow> bool" where
  "endsWith s t = suffix t s"

fun split :: "char \<Rightarrow> string \<Rightarrow> string list" where
  "split c [] = [[]]"
| "split c (x # xs) =
     (if x = c then [] # split c xs
      else (case split c xs of [] \<Rightarrow> [[x]] | s # ss \<Rightarrow> (x # s) # ss))"

fun join_with :: "string \<Rightarrow> string list \<Rightarrow> string" where
  "join_with sep [] = []"
| "join_with sep [s] = s"
| "join_with sep (s # t # ss) = s @ sep @ join_with sep (t # ss)"

fun replace_first :: "string \<Rightarrow> string \<Rightarrow> string \<Rightarrow> string" where
  "replace_first pat rep [] = (if pat = [] then rep else [])"
| "replace_first pat rep (x # xs) =
     (if prefix pat (x # xs) then rep @ drop (length pat) (x # xs)
      else x # replace_first pat rep xs)"

section \<open>JSON values and property access\<close>

text \<open>
  The values \<open>JSON.parse\<close> produces. A number is a double: finite, or an infinity
  (\<open>JSON.parse('1e999')\<close> is \<open>Infinity\<close>); the finite ones are kept exact, the code
  only compares a number with 0. An object is its list of own properties in insertion
  order; property lookup takes the first entry of a key.
\<close>

datatype number = Finite rat | PosInfinity | NegInfinity

datatype json =
    JNull
  | JBool bool
  | JNum number
  | JStr string
  | JArr "json list"
  | JObj "(string \<times> json) list"

datatype error =
    ErrIO          \<comment> \<open>a file-system failure other than ENOENT\<close>
  | SyntaxError    \<comment> \<open>\<open>JSON.parse\<close> on text that is not JSON\<close>
  | InvalidJSON    \<comment> \<open>\<open>new Error('Invalid JSON')\<close> of \<open>parseJsonBody\<close>\<close>
  | TypeError      \<comment> \<open>property access on \<open>null\<close>, \<open>in\<close> on a primitive, a missing method\<close>
  | StreamError    \<comment> \<open>the request stream's \<open>error\<close> event\<close>

definition bind :: "error + 'a \<Rightarrow> ('a \<Rightarrow> error + 'b) \<Rightarrow> error + 'b" where
  "bind m f = (case m of Inl e \<Rightarrow> Inl e | Inr v \<Rightarrow> f v)"

text \<open>Truthiness, as \<open>!payload\<close> and \<open>segments[2] ? ... \<close> test it.\<close>

fun truthy :: "json \<Rightarrow> bool" where
  "truthy JNull = False"
| "truthy (JBool b) = b"
| "truthy (JNum n) = (n \<noteq> Finite 0)"
| "truthy (JStr s) = (s \<noteq> [])"
| "truthy (JArr xs) = True"
| "truthy (JObj kvs) = True"

text \<open>
  \<open>v.k\<close> for the property names the code reads (\<open>id\<close>, \<open>name\<close>, \<open>price\<close>,
  \<open>size\<close>), which no prototype defines: \<open>None\<close> is \<open>undefined\<close>; reading a
  property of \<open>null\<close> throws.
\<close>

fun get :: "json \<Rightarrow> string \<Rightarrow> error + json option" where
  "get JNull k = Inl TypeError"
| "get (JObj kvs) k = Inr (map_of kvs k)"
| "get v k = Inr None"

text \<open>
  \<open>k in v\<close> for the same property names: it throws on a primitive, and is false
  on an array (whose own keys are indices and \<open>length\<close>).
\<close>

fun in_op :: "string \<Rightarrow> json \<Rightarrow> error + bool" where
  "in_op k (JObj kvs) = Inr (k \<in> set (map fst kvs))"
| "in_op k (JArr xs) = Inr False"
| "in_op k v = Inl TypeError"

text \<open>
  \<open>item.k = v\<close> on an item, as \<open>JSON.stringify\<close> shows it afterwards: an object
  gets the property (in place when it has the key, appended otherwise), a property
  whose value is \<open>undefined\<close> is not serialised, and an assignment to a primitive or
  to a named property of an array leaves the serialised value as it was. The item
  assigned to is the one \<open>findIndex\<close> found by its \<open>id\<close>, so it is never \<open>null\<close>.
\<close>

fun assign :: "json \<Rightarrow> string \<Rightarrow> json option \<Rightarrow> json" where
  "assign (JObj kvs) k (Some v) = JObj (AList.update k v kvs)"
| "assign (JObj kvs) k None = JObj (AList.delete k kvs)"
| "assign item k v = item"

section \<open>Texts, files and persistence\<close>

text \<open>
  A text (a request body, the content of \<open>items.json\<close>) is represented by what the
  code can observe of it: whether it is the empty string, and what \<open>JSON.parse\<close>
  makes of it. \<open>JSON.parse('')\<close> throws, like any text that is not JSON.
\<close>

datatype raw_text = Empty | Malformed | WellFormed json

fun JSON_parse :: "raw_text \<Rightarrow> error + json" where
  "JSON_parse (WellFormed v) = Inr v"
| "JSON_parse Malformed = Inl SyntaxError"
| "JSON_parse Empty = Inl SyntaxError"

definition valid_json :: "raw_text \<Rightarrow> bool" where
  "valid_json t = (case JSON_parse t of Inr v \<Rightarrow> True | Inl e \<Rightarrow> False)"

datatype file_state = ENOENT | Unreadable | Content raw_text

record fs =
  data_file :: file_state                       \<comment> \<open>\<open>DATA_FILE\<close>, items.json\<close>
  write_fails :: bool                     \<comment> \<open>whether \<open>writeFile\<close> or \<open>rename\<close> rejects\<close>
  files :: "string \<Rightarrow> string option"      \<comment> \<open>the other files, by path; \<open>None\<close>: \<open>readFile\<close> fails\<close>

text \<open>\<open>readItems\<close> (lines 13-21): \<open>JSON.parse(txt || '[]')\<close>, and \<open>[]\<close> on ENOENT.\<close>

definition readItems :: "fs \<Rightarrow> error + json" where
  "readItems s =
     (case data_file s of
        ENOENT \<Rightarrow> Inr (JArr [])
      | Unreadable \<Rightarrow> Inl ErrIO
      | Content txt \<Rightarrow> JSON_parse (if txt = Empty then WellFormed (JArr []) else txt))"

text \<open>
  \<open>JSON.parse(JSON.stringify(v))\<close>: \<open>JSON.stringify\<close> writes an infinite number as
  \<open>null\<close> and every other value as a text that parses back to it.
\<close>

primrec reparse :: "json \<Rightarrow> json" where
  "reparse JNull = JNull"
| "reparse (JBool b) = JBool b"
| "reparse (JNum n) = (case n of Finite r \<Rightarrow> JNum n | PosInfinity \<Rightarrow> JNull | NegInfinity \<Rightarrow> JNull)"
| "reparse (JStr s) = JStr s"
| "reparse (JArr xs) = JArr (map reparse xs)"
| "reparse (JObj kvs) = JObj (map (map_prod id reparse) kvs)"

text \<open>
  \<open>writeItems\<close> (lines 23-28): the temporary file is written, then renamed. The file
  then holds \<open>JSON.stringify(items, null, 2)\<close>.
\<close>

definition writeItems :: "json list \<Rightarrow> fs \<Rightarrow> error + fs" where
  "writeItems items s =
     (if write_fails s then Inl ErrIO
      else Inr (s\<lparr>data_file := Content (WellFormed (reparse (JArr items)))\<rparr>))"

text \<open>
  \<open>parseJsonBody\<close> (lines 31-42). The request body is the text received, or the
  stream fails before its end.
\<close>

datatype incoming = Aborted | Received raw_text

definition parseJsonBody :: "incoming \<Rightarrow> error + json" where
  "parseJsonBody b =
     (case b of
        Aborted \<Rightarrow> Inl StreamError
      | Received body \<Rightarrow>
          if body = Empty then Inr JNull
          else (case JSON_parse body of Inr v \<Rightarrow> Inr v | Inl e \<Rightarrow> Inl InvalidJSON))"

section \<open>Validation\<close>

definition allowedSizes :: "string list" where
  "allowedSizes = [''s'', ''m'', ''l'', ''small'', ''medium'', ''large'']"

definition name_invalid :: "json option \<Rightarrow> bool" where
  "name_invalid v = (case v of Some (JStr s) \<Rightarrow> trim s = [] | _ \<Rightarrow> True)"

definition price_invalid :: "json option \<Rightarrow> bool" where
  "price_invalid v = (case v of Some (JNum (Finite r)) \<Rightarrow> r < 0 | _ \<Rightarrow> True)"

definition size_invalid :: "json option \<Rightarrow> bool" where
  "size_invalid v =
     (case v of Some (JStr s) \<Rightarrow> toLowerCase s \<notin> set allowedSizes | _ \<Rightarrow> True)"

text \<open>
  One field of \<open>validateItemPayload\<close>: \<open>if (!isPartial || (k in payload))\<close>, then
  the field's test and its message.
\<close>

definition check_field ::
  "json \<Rightarrow> bool \<Rightarrow> string \<Rightarrow> (json option \<Rightarrow> bool) \<Rightarrow> string \<Rightarrow> error + string list" where
  "check_field payload isPartial k invalid msg =
     bind (if isPartial then in_op k payload else Inr True) (\<lambda>present.
       if present then bind (get payload k) (\<lambda>v. Inr (if invalid v then [msg] else []))
       else Inr [])"

text \<open>\<open>validateItemPayload\<close> (lines 45-62).\<close>

definition validateItemPayload :: "json \<Rightarrow> bool \<Rightarrow> error + string list" where
  "validateItemPayload payload isPartial =
     bind (check_field payload isPartial ''name'' name_invalid
             ''name must be a non-empty string'') (\<lambda>e1.
     bind (check_field payload isPartial ''price'' price_invalid
             ''price must be a non-negative number'') (\<lambda>e2.
     bind (check_field payload isPartial ''size'' size_invalid
             ''size must be one of s,m,l (or small,medium,large)'') (\<lambda>e3.
     Inr (e1 @ e2 @ e3))))"

text \<open>
  The size expression of lines 153 and 185:
  \<open>payload.size.toLowerCase().replace('small','s').replace('medium','m').replace('large','l')\<close>.
\<close>

definition canonical_size :: "string \<Rightarrow> string" where
  "canonical_size s =
     replace_first ''large'' ''l''
       (replace_first ''medium'' ''m''
         (replace_first ''small'' ''s'' (toLowerCase s)))"

definition payload_size :: "json \<Rightarrow> error + json" where
  "payload_size payload =
     bind (get payload ''size'') (\<lambda>v.
       case v of Some (JStr s) \<Rightarrow> Inr (JStr (canonical_size s)) | _ \<Rightarrow> Inl TypeError)"

section \<open>Paths\<close>

text \<open>
  \<open>path.normalize\<close> and \<open>path.join\<close> of Node's \<open>path\<close> module with POSIX
  separators. \<open>normalizeString\<close> walks the segments between slashes with the
  segments kept so far: an empty segment and \<open>.\<close> are dropped, \<open>..\<close> removes the
  last kept segment unless there is none or it is \<open>..\<close> itself, in which case
  \<open>..\<close> is kept when the path is relative (\<open>allowAboveRoot\<close>) and dropped when it
  is absolute.
\<close>

fun normalizeString :: "bool \<Rightarrow> string list \<Rightarrow> string list \<Rightarrow> string list" where
  "normalizeString allowAboveRoot res [] = res"
| "normalizeString allowAboveRoot res (seg # segs) =
     (if seg = [] then normalizeString allowAboveRoot res segs
      else if seg = ''.'' then normalizeString allowAboveRoot res segs
      else if seg = ''..'' then
        (if res = [] then
           normalizeString allowAboveRoot (if allowAboveRoot then [''..''] else []) segs
         else if last res = ''..'' then
           normalizeString allowAboveRoot (if allowAboveRoot then res @ [''..''] else res) segs
         else normalizeString allowAboveRoot (butlast res) segs)
      else normalizeString allowAboveRoot (res @ [seg]) segs)"

definition path_normalize :: "string \<Rightarrow> string" where
  "path_normalize path =
     (if path = [] then ''.''
      else
        let isAbsolute = (hd path = CHR ''/'');
            trailingSeparator = (last path = CHR ''/'');
            p = join_with ''/'' (normalizeString (\<not> isAbsolute) [] (split CHR ''/'' path))
        in if p = [] then (if isAbsolute then ''/'' else if trailingSeparator then ''./'' else ''.'')
           else (if isAbsolute then ''/'' else []) @ p @ (if trailingSeparator then ''/'' else []))"

definition path_join :: "string list \<Rightarrow> string" where
  "path_join args =
     (let parts = filter (\<lambda>a. a \<noteq> []) args
      in if parts = [] then ''.'' else path_normalize (join_with ''/'' parts))"

text \<open>\<open>.replace(/^(\.\.[/\\])+/, '')\<close>: the longest run of \<open>../\<close> and \<open>..\\<close> at the start.\<close>

fun strip_parents :: "string \<Rightarrow> string" where
  "strip_parents s =
     (case s of
        a # b # c # rest \<Rightarrow>
          if a = CHR ''.'' \<and> b = CHR ''.'' \<and> (c = CHR ''/'' \<or> c = backslash)
          then strip_parents rest else s
      | _ \<Rightarrow> s)"

declare strip_parents.simps [simp del]

section \<open>Requests and responses\<close>

record request =
  req_method :: string          \<comment> \<open>\<open>req.method\<close>\<close>
  req_pathname :: string        \<comment> \<open>\<open>url.parse(req.url).pathname\<close>, not decoded\<close>
  req_body :: incoming

text \<open>A JSON response holds the value that the handler passes to \<open>JSON.stringify\<close>.\<close>

datatype content = Json json | Html string | Plain string

record response =
  status :: nat
  content_type :: string
  content :: content

definition json_response :: "nat \<Rightarrow> (string \<times> json) list \<Rightarrow> response" where
  "json_response code envelope =
     \<lparr>status = code, content_type = ''application/json'', content = Json (JObj envelope)\<rparr>"

definition failure :: "nat \<Rightarrow> string \<Rightarrow> response" where
  "failure code msg = json_response code [(''success'', JBool False), (''error'', JStr msg)]"

definition success :: "nat \<Rightarrow> json \<Rightarrow> response" where
  "success code d = json_response code [(''success'', JBool True), (''data'', d)]"

section \<open>Static HTML files\<close>

definition PUBLIC_DIR :: "string \<Rightarrow> string" where
  "PUBLIC_DIR dirname = path_join [dirname, ''public'']"

text \<open>
  The path that \<open>serveStaticHtml\<close> reads (lines 66-74): \<open>None\<close> when the request is
  not for an \<open>.html\<close> file.
\<close>

definition static_file_path :: "string \<Rightarrow> string \<Rightarrow> string option" where
  "static_file_path dirname parsed =
     (let requested = (if parsed = ''/'' then ''/index.html'' else parsed)
      in if \<not> endsWith requested ''.html'' then None
         else
           let safePath = strip_parents (path_normalize requested)
           in Some (path_join [PUBLIC_DIR dirname, safePath]))"

definition html_response :: "nat \<Rightarrow> string \<Rightarrow> response" where
  "html_response code page =
     \<lparr>status = code, content_type = ''text/html; charset=utf-8'', content = Html page\<rparr>"

text \<open>\<open>serveStaticHtml\<close> (lines 65-95): \<open>None\<close> is the result \<open>false\<close>.\<close>

definition serveStaticHtml :: "string \<Rightarrow> request \<Rightarrow> fs \<Rightarrow> response option" where
  "serveStaticHtml dirname req s =
     (case static_file_path dirname (req_pathname req) of
        None \<Rightarrow> None
      | Some filePath \<Rightarrow>
          (case files s filePath of
             Some page \<Rightarrow> Some (html_response 200 page)
           | None \<Rightarrow>
               (case files s (path_join [PUBLIC_DIR dirname, ''404.html'']) of
                  Some nf \<Rightarrow> Some (html_response 404 nf)
                | None \<Rightarrow>
                    Some \<lparr>status = 404, content_type = ''text/plain; charset=utf-8'',
                          content = Plain ''404 Not Found''\<rparr>)))"

section \<open>The API\<close>

text \<open>
  The array methods the handlers call on what \<open>readItems\<close> returned throw a
  \<open>TypeError\<close> when that value is not an array.
\<close>

definition as_array :: "json \<Rightarrow> error + json list" where
  "as_array v = (case v of JArr xs \<Rightarrow> Inr xs | _ \<Rightarrow> Inl TypeError)"

text \<open>\<open>items.findIndex(i => i.id === id)\<close>: \<open>None\<close> is the result \<open>-1\<close>.\<close>

fun findIndex :: "string \<Rightarrow> json list \<Rightarrow> error + nat option" where
  "findIndex id' [] = Inr None"
| "findIndex id' (i # items) =
     bind (get i ''id'') (\<lambda>v.
       if v = Some (JStr id') then Inr (Some 0)
       else bind (findIndex id' items) (\<lambda>r. Inr (map_option Suc r)))"

text \<open>\<open>items.find(i => i.id === id)\<close>: \<open>None\<close> is the result \<open>undefined\<close>.\<close>

fun find_item :: "string \<Rightarrow> json list \<Rightarrow> error + json option" where
  "find_item id' [] = Inr None"
| "find_item id' (i # items) =
     bind (get i ''id'') (\<lambda>v.
       if v = Some (JStr id') then Inr (Some i) else find_item id' items)"

text \<open>\<open>GET /api/items\<close> (lines 113-119).\<close>

definition list_items :: "fs \<Rightarrow> error + response \<times> fs" where
  "list_items s = bind (readItems s) (\<lambda>items. Inr (success 200 items, s))"

text \<open>\<open>GET /api/items/:id\<close> (lines 121-132).\<close>

definition get_item :: "string \<Rightarrow> fs \<Rightarrow> error + response \<times> fs" where
  "get_item id' s =
     bind (readItems s) (\<lambda>v.
     bind (as_array v) (\<lambda>items.
     bind (find_item id' items) (\<lambda>found.
       case found of
         None \<Rightarrow> Inr (failure 404 ''Item not found'', s)
       | Some item \<Rightarrow> Inr (success 200 item, s))))"

text \<open>
  The object literal of lines 149-154; a property whose value is \<open>undefined\<close> is not
  serialised.
\<close>

definition field :: "string \<Rightarrow> json option \<Rightarrow> (string \<times> json) list" where
  "field k v = (case v of Some x \<Rightarrow> [(k, x)] | None \<Rightarrow> [])"

definition new_item :: "string \<Rightarrow> json \<Rightarrow> error + json" where
  "new_item uuid payload =
     bind (get payload ''name'') (\<lambda>n.
     bind (get payload ''price'') (\<lambda>p.
     bind (payload_size payload) (\<lambda>sz.
       Inr (JObj ([(''id'', JStr uuid)] @ field ''name'' n @ field ''price'' p @ [(''size'', sz)])))))"

text \<open>\<open>POST /api/items\<close> (lines 134-160); \<open>uuid\<close> is what \<open>randomUUID()\<close> returns.\<close>

definition create_item :: "string \<Rightarrow> incoming \<Rightarrow> fs \<Rightarrow> error + response \<times> fs" where
  "create_item uuid b s =
     bind (parseJsonBody b) (\<lambda>payload.
       if \<not> truthy payload then Inr (failure 400 ''Missing JSON body'', s)
       else
         bind (validateItemPayload payload False) (\<lambda>errors.
           if errors \<noteq> [] then
             Inr (json_response 422
                    [(''success'', JBool False), (''errors'', JArr (map JStr errors))], s)
           else
             bind (readItems s) (\<lambda>v.
             bind (new_item uuid payload) (\<lambda>newItem.
             bind (as_array v) (\<lambda>items.
             bind (writeItems (items @ [newItem]) s) (\<lambda>s'.
               Inr (success 201 newItem, s')))))))"

text \<open>One of the assignments of lines 183-185: \<open>if (k in payload) item.k = value\<close>.\<close>

definition assign_if_present ::
  "json \<Rightarrow> string \<Rightarrow> (json \<Rightarrow> error + json option) \<Rightarrow> json \<Rightarrow> error + json" where
  "assign_if_present payload k rhs item =
     bind (in_op k payload) (\<lambda>present.
       if present then bind (rhs payload) (\<lambda>v. Inr (assign item k v)) else Inr item)"

definition apply_update :: "json \<Rightarrow> json \<Rightarrow> error + json" where
  "apply_update payload item =
     bind (assign_if_present payload ''name'' (\<lambda>p. get p ''name'') item) (\<lambda>item1.
     bind (assign_if_present payload ''price'' (\<lambda>p. get p ''price'') item1) (\<lambda>item2.
     assign_if_present payload ''size''
       (\<lambda>p. bind (payload_size p) (\<lambda>sz. Inr (Some sz))) item2))"

text \<open>\<open>PUT /api/items/:id\<close> (lines 162-191).\<close>

definition update_item :: "string \<Rightarrow> incoming \<Rightarrow> fs \<Rightarrow> error + response \<times> fs" where
  "update_item id' b s =
     bind (parseJsonBody b) (\<lambda>payload.
       if \<not> truthy payload then Inr (failure 400 ''Missing JSON body'', s)
       else
         bind (validateItemPayload payload True) (\<lambda>errors.
           if errors \<noteq> [] then
             Inr (json_response 422
                    [(''success'', JBool False), (''errors'', JArr (map JStr errors))], s)
           else
             bind (readItems s) (\<lambda>v.
             bind (as_array v) (\<lambda>items.
             bind (findIndex id' items) (\<lambda>found.
               case found of
                 None \<Rightarrow> Inr (failure 404 ''Item not found'', s)
               | Some idx \<Rightarrow>
                   bind (apply_update payload (items ! idx)) (\<lambda>item.
                   bind (writeItems (items[idx := item]) s) (\<lambda>s'.
                     Inr (success 200 item, s'))))))))"

text \<open>\<open>DELETE /api/items/:id\<close> (lines 193-206).\<close>

definition delete_item :: "string \<Rightarrow> fs \<Rightarrow> error + response \<times> fs" where
  "delete_item id' s =
     bind (readItems s) (\<lambda>v.
     bind (as_array v) (\<lambda>items.
     bind (findIndex id' items) (\<lambda>found.
       case found of
         None \<Rightarrow> Inr (failure 404 ''Item not found'', s)
       | Some idx \<Rightarrow>
           bind (writeItems (take idx items @ drop (Suc idx) items) s) (\<lambda>s'.
             Inr (success 200 (items ! idx), s')))))"

text \<open>The \<open>try\<close> block of \<open>handleApi\<close> (lines 112-211).\<close>

definition route ::
  "string \<Rightarrow> string \<Rightarrow> string option \<Rightarrow> incoming \<Rightarrow> fs \<Rightarrow> error + response \<times> fs" where
  "route uuid m id' b s =
     (if m = ''GET'' \<and> id' = None then list_items s
      else if m = ''GET'' \<and> id' \<noteq> None then get_item (the id') s
      else if m = ''POST'' \<and> id' = None then create_item uuid b s
      else if m = ''PUT'' \<and> id' \<noteq> None then update_item (the id') b s
      else if m = ''DELETE'' \<and> id' \<noteq> None then delete_item (the id') s
      else Inr (failure 405 ''Method not allowed'', s))"

text \<open>\<open>parsed.pathname.split('/').filter(Boolean)\<close> (line 100).\<close>

definition path_segments :: "string \<Rightarrow> string list" where
  "path_segments pathname = filter (\<lambda>seg. seg \<noteq> []) (split CHR ''/'' pathname)"

text \<open>
  \<open>handleApi\<close> (lines 98-219): \<open>None\<close> is the result \<open>false\<close>. An error thrown in
  the \<open>try\<close> block becomes the 500 response; nothing was written then.
\<close>

definition handleApi :: "string \<Rightarrow> request \<Rightarrow> fs \<Rightarrow> response option \<times> fs" where
  "handleApi uuid req s =
     (case path_segments (req_pathname req) of
        [] \<Rightarrow> (None, s)
      | seg0 # rest \<Rightarrow>
          if seg0 \<noteq> ''api'' then (None, s)
          else if (case rest of [] \<Rightarrow> True | seg1 # rest' \<Rightarrow> seg1 \<noteq> ''items'') then
            (Some (failure 404 ''Not found''), s)
          else
            let id' = (case drop 1 rest of [] \<Rightarrow> None
                      | seg2 # rest' \<Rightarrow> if seg2 \<noteq> [] then Some seg2 else None)
            in (case route uuid (req_method req) id' (req_body req) s of
                  Inl err \<Rightarrow> (Some (failure 500 ''Internal server error''), s)
                | Inr (r, s') \<Rightarrow> (Some r, s')))"

text \<open>The request listener (lines 222-240).\<close>

definition server :: "string \<Rightarrow> string \<Rightarrow> request \<Rightarrow> fs \<Rightarrow> response \<times> fs" where
  "server dirname uuid req s =
     (case serveStaticHtml dirname req s of
        Some r \<Rightarrow> (r, s)
      | None \<Rightarrow>
          (case handleApi uuid req s of
             (Some r, s') \<Rightarrow> (r, s')
           | (None, s') \<Rightarrow> (failure 404 ''Not found'', s')))"

section \<open>Predicates of the specification\<close>

text \<open>
  The theorems about stored items suppose a collection as the data model has it:
  \<open>readItems\<close> returns an array (the file is absent, empty or holds one), the elements
  that \<open>find\<close> and \<open>findIndex\<close> visit are not \<open>null\<close>, a request that writes can write
  (\<open>write_fails\<close> is false), and the elements written hold no infinite number, as items
  do whose price is finite (\<open>round_trips\<close>), so that the file gives them back as they are.
\<close>

text \<open>An element of the collection whose \<open>id\<close> is the string \<open>id'\<close>.\<close>

definition has_id :: "string \<Rightarrow> json \<Rightarrow> bool" where
  "has_id id' i = (get i ''id'' = Inr (Some (JStr id')))"

text \<open>
  A value that \<open>JSON.stringify\<close> and \<open>JSON.parse\<close> give back as it is: one without an
  infinite number, as every item is whose price is finite.
\<close>

definition round_trips :: "json \<Rightarrow> bool" where
  "round_trips v = (reparse v = v)"

text \<open>
  A path \<open>p\<close> lies inside the directory \<open>dir\<close>: it is \<open>dir\<close>, a slash, and one or
  more names separated by slashes, none of them empty, \<open>.\<close> or \<open>..\<close>.
\<close>

definition is_name :: "string \<Rightarrow> bool" where
  "is_name seg = (seg \<noteq> [] \<and> seg \<noteq> ''.'' \<and> seg \<noteq> ''..'')"

definition inside :: "string \<Rightarrow> string \<Rightarrow> bool" where
  "inside dir p =
     (prefix (dir @ ''/'') p
      \<and> list_all is_name (split CHR ''/'' (drop (length dir + 1) p)))"

text \<open>An element with exactly the four fields of an item, in the order POST writes them.\<close>

fun is_item :: "json \<Rightarrow> bool" where
  "is_item (JObj kvs) = (map fst kvs = [''id'', ''name'', ''price'', ''size''])"
| "is_item v = False"

section \<open>Example inputs\<close>

text \<open>A store of two items on a disk that holds no other file, and PUT requests.\<close>

definition mug :: json where
  "mug = JObj [(''id'', JStr ''a1''), (''name'', JStr ''mug''), (''price'', JNum (Finite 3)), (''size'', JStr ''s'')]"

definition cap :: json where
  "cap = JObj [(''id'', JStr ''b2''), (''name'', JStr ''cap''), (''price'', JNum (Finite 7)), (''size'', JStr ''m'')]"

definition disk :: "file_state \<Rightarrow> fs" where
  "disk f = \<lparr>data_file = f, write_fails = False, files = (\<lambda>p. None)\<rparr>"

definition shop :: fs where
  "shop = disk (Content (WellFormed (JArr [mug, cap])))"

definition put :: "string \<Rightarrow> raw_text \<Rightarrow> request" where
  "put p b = \<lparr>req_method = ''PUT'', req_pathname = p, req_body = Received b\<rparr>"

definition get_req :: "string \<Rightarrow> request" where
  "get_req p = \<lparr>req_method = ''GET'', req_pathname = p, req_body = Received Empty\<rparr>"

definition delete_req :: "string \<Rightarrow> request" where
  "delete_req p = \<lparr>req_method = ''DELETE'', req_pathname = p, req_body = Received Empty\<rparr>"

definition post_req :: "raw_text \<Rightarrow> request" where
  "post_req b = \<lparr>req_method = ''POST'', req_pathname = ''/api/items'', req_body = Received b\<rparr>"

text \<open>A payload for POST with two keys that the server ignores.\<close>

definition hat_payload :: json where
  "hat_payload = JObj [(''id'', JStr ''mine''), (''name'', JStr ''hat''), (''price'', JNum (Finite 9)),
                       (''size'', JStr ''Large''), (''colour'', JStr ''red'')]"

section \<open>Basic facts\<close>

lemma bind_Inr [simp]: "bind (Inr v) f = f v"
  by (simp add: bind_def)

lemma bind_Inl [simp]: "bind (Inl e) f = Inl e"
  by (simp add: bind_def)

lemma get_not_null: "i \<noteq> JNull \<Longrightarrow> \<exists>v. get i k = Inr v"
  by (cases i) simp_all

lemma map_reparse_id: "\<forall>i\<in>set xs. round_trips i \<Longrightarrow> map reparse xs = xs"
  by (simp add: round_trips_def map_idI)

lemma writeItems_round_trips:
  "\<not> write_fails s \<Longrightarrow> \<forall>i\<in>set items. round_trips i \<Longrightarrow>
   writeItems items s = Inr (s\<lparr>data_file := Content (WellFormed (JArr items))\<rparr>)"
  by (simp add: writeItems_def map_reparse_id)

lemma reparse_update:
  "map (map_prod id reparse) (AList.update k v kvs) =
     AList.update k (reparse v) (map (map_prod id reparse) kvs)"
  by (induction kvs) auto

lemma assign_round_trips:
  "round_trips item \<Longrightarrow> round_trips v \<Longrightarrow> round_trips (assign item k (Some v))"
  by (cases item) (simp_all add: round_trips_def reparse_update)

lemma segments_nonempty: "seg \<in> set (path_segments p) \<Longrightarrow> seg \<noteq> []"
  by (simp add: path_segments_def)


lemma handleApi_member:
  assumes "path_segments (req_pathname req) = ''api'' # ''items'' # id' # rest"
  shows "handleApi uuid req s =
     (case route uuid (req_method req) (Some id') (req_body req) s of
        Inl err \<Rightarrow> (Some (failure 500 ''Internal server error''), s)
      | Inr (r, s') \<Rightarrow> (Some r, s'))"
proof -
  have "id' \<in> set (path_segments (req_pathname req))"
    using assms by simp
  then have "id' \<noteq> []"
    by (rule segments_nonempty)
  with assms show ?thesis
    by (simp add: handleApi_def)
qed

lemma findIndex_absent:
  "JNull \<notin> set items \<Longrightarrow> \<forall>i\<in>set items. \<not> has_id id' i \<Longrightarrow> findIndex id' items = Inr None"
proof (induction items)
  case Nil
  then show ?case by simp
next
  case (Cons i items)
  from Cons.prems have "i \<noteq> JNull" by auto
  then obtain v where v: "get i ''id'' = Inr v"
    using get_not_null by blast
  with Cons show ?case
    by (simp add: has_id_def)
qed

lemma findIndex_first:
  "JNull \<notin> set pre \<Longrightarrow> \<forall>i\<in>set pre. \<not> has_id id' i \<Longrightarrow> has_id id' item \<Longrightarrow>
   findIndex id' (pre @ item # post) = Inr (Some (length pre))"
proof (induction pre)
  case Nil
  then show ?case by (simp add: has_id_def)
next
  case (Cons i pre)
  from Cons.prems have "i \<noteq> JNull" by auto
  then obtain v where v: "get i ''id'' = Inr v"
    using get_not_null by blast
  with Cons show ?case
    by (simp add: has_id_def)
qed

lemma find_item_absent:
  "JNull \<notin> set items \<Longrightarrow> \<forall>i\<in>set items. \<not> has_id id' i \<Longrightarrow> find_item id' items = Inr None"
proof (induction items)
  case Nil
  then show ?case by simp
next
  case (Cons i items)
  from Cons.prems have "i \<noteq> JNull" by auto
  then obtain v where v: "get i ''id'' = Inr v"
    using get_not_null by blast
  with Cons show ?case
    by (simp add: has_id_def)
qed


section \<open>The request listener\<close>

text \<open>
  Static serving comes first and looks at the path only: a request whose path ends in
  \<open>.html\<close> never reaches \<open>handleApi\<close>, whatever its method; every other request is
  answered by \<open>handleApi\<close>, or with 404 when that declines.
\<close>

lemma static_declines:
  "pathname \<noteq> ''/'' \<Longrightarrow> \<not> endsWith pathname ''.html'' \<Longrightarrow> static_file_path dirname pathname = None"
  by (simp add: static_file_path_def)

lemma server_api:
  assumes "static_file_path dirname (req_pathname req) = None"
  shows "server dirname uuid req s =
     (case handleApi uuid req s of
        (Some r, s') \<Rightarrow> (r, s')
      | (None, s') \<Rightarrow> (failure 404 ''Not found'', s'))"
  using assms by (simp add: server_def serveStaticHtml_def)

lemma server_static:
  assumes "static_file_path dirname (req_pathname req) = Some filePath"
  shows "snd (server dirname uuid req s) = s
       \<and> status (fst (server dirname uuid req s)) \<in> {200, 404}"
  using assms
  by (simp add: server_def serveStaticHtml_def html_response_def split: option.splits)

section \<open>Facts about validation and assignment\<close>

lemma get_assign_same: "get (assign (JObj kvs) k v) k = Inr v"
  by (cases v) (simp_all add: update_conv' delete_conv')

lemma get_assign_other: "k' \<noteq> k \<Longrightarrow> get (assign item k v) k' = get item k'"
  by (cases item; cases v) (simp_all add: update_conv' delete_conv')

lemma in_op_cases:
  "in_op k payload = Inr b \<Longrightarrow>
     (\<exists>pk. payload = JObj pk \<and> b = (k \<in> fst ` set pk)) \<or> (\<exists>xs. payload = JArr xs \<and> \<not> b)"
  by (cases payload) auto

lemma in_op_get: "in_op k payload = Inr True \<Longrightarrow> \<exists>v. get payload k = Inr (Some v)"
  by (cases payload) (auto dest: weak_map_of_SomeI)

lemma assign_if_present_frame:
  assumes "assign_if_present payload k rhs item = Inr item'"
    and "k' \<noteq> k \<or> in_op k payload = Inr False"
  shows "get item' k' = get item k'"
  using assms
  by (auto simp: assign_if_present_def bind_def get_assign_other split: sum.splits if_splits)

lemma apply_update_frame:
  assumes "apply_update payload item = Inr item'"
    and "k \<notin> {''name'', ''price'', ''size''} \<or> in_op k payload = Inr False"
  shows "get item' k = get item k"
proof -
  from assms(1) obtain item1 item2 where
    s1: "assign_if_present payload ''name'' (\<lambda>p. get p ''name'') item = Inr item1" and
    s2: "assign_if_present payload ''price'' (\<lambda>p. get p ''price'') item1 = Inr item2" and
    s3: "assign_if_present payload ''size'' (\<lambda>p. bind (payload_size p) (\<lambda>sz. Inr (Some sz))) item2 = Inr item'"
    by (auto simp: apply_update_def bind_def split: sum.splits)
  have "get item' k = get item2 k"
    using s3 assms(2) by (intro assign_if_present_frame [OF s3]) auto
  also have "\<dots> = get item1 k"
    using s2 assms(2) by (intro assign_if_present_frame [OF s2]) auto
  also have "\<dots> = get item k"
    using s1 assms(2) by (intro assign_if_present_frame [OF s1]) auto
  finally show ?thesis .
qed

lemma check_field_Inr:
  "check_field payload isPartial k invalid msg = Inr es \<Longrightarrow>
     (isPartial \<and> in_op k payload = Inr False \<and> es = [])
     \<or> ((\<not> isPartial \<or> in_op k payload = Inr True)
         \<and> (\<exists>v. get payload k = Inr v \<and> es = (if invalid v then [msg] else [])))"
  by (auto simp: check_field_def bind_def split: sum.splits if_splits)

lemma validate_fields:
  assumes "validateItemPayload payload isPartial = Inr []"
  shows "check_field payload isPartial ''name'' name_invalid ''name must be a non-empty string'' = Inr []"
    and "check_field payload isPartial ''price'' price_invalid ''price must be a non-negative number'' = Inr []"
    and "check_field payload isPartial ''size'' size_invalid ''size must be one of s,m,l (or small,medium,large)'' = Inr []"
  using assms by (auto simp: validateItemPayload_def bind_def split: sum.splits)

lemma size_valid_cases:
  "\<not> size_invalid v \<Longrightarrow> \<exists>sz. v = Some (JStr sz) \<and> toLowerCase sz \<in> set allowedSizes"
  by (auto simp: size_invalid_def split: option.splits json.splits)

lemma name_valid_cases:
  "\<not> name_invalid v \<Longrightarrow> \<exists>n. v = Some (JStr n) \<and> trim n \<noteq> []"
  by (auto simp: name_invalid_def split: option.splits json.splits)

lemma price_valid_cases:
  "\<not> price_invalid v \<Longrightarrow> \<exists>r. v = Some (JNum (Finite r)) \<and> 0 \<le> r"
  by (auto simp: price_invalid_def split: option.splits json.splits number.splits)

text \<open>What a payload that passes full validation holds.\<close>

lemma validate_full:
  assumes "validateItemPayload payload False = Inr []"
  shows "\<exists>n r sz. get payload ''name'' = Inr (Some (JStr n)) \<and> trim n \<noteq> []
           \<and> get payload ''price'' = Inr (Some (JNum (Finite r))) \<and> 0 \<le> r
           \<and> get payload ''size'' = Inr (Some (JStr sz)) \<and> toLowerCase sz \<in> set allowedSizes"
proof -
  from validate_fields(1) [OF assms] obtain v1 where
    v1: "get payload ''name'' = Inr v1" "\<not> name_invalid v1"
    by (auto dest!: check_field_Inr split: if_splits)
  from validate_fields(2) [OF assms] obtain v2 where
    v2: "get payload ''price'' = Inr v2" "\<not> price_invalid v2"
    by (auto dest!: check_field_Inr split: if_splits)
  from validate_fields(3) [OF assms] obtain v3 where
    v3: "get payload ''size'' = Inr v3" "\<not> size_invalid v3"
    by (auto dest!: check_field_Inr split: if_splits)
  from v1 v2 v3 show ?thesis
    using name_valid_cases [of v1] price_valid_cases [of v2] size_valid_cases [of v3]
    by auto
qed

text \<open>
  A payload that passes partial validation is an object or an array, and its size, when
  present, is an accepted string.
\<close>

lemma validate_partial_size:
  assumes "validateItemPayload payload True = Inr []"
  shows "in_op ''size'' payload = Inr False
     \<or> (in_op ''size'' payload = Inr True
        \<and> (\<exists>sz. get payload ''size'' = Inr (Some (JStr sz)) \<and> toLowerCase sz \<in> set allowedSizes))"
  using validate_fields(3) [OF assms] size_valid_cases
  by (auto dest!: check_field_Inr split: if_splits)

lemma validate_partial_in_op:
  assumes "validateItemPayload payload True = Inr []"
  shows "\<exists>b. in_op k payload = Inr b"
proof -
  from validate_fields(1) [OF assms] have "\<exists>b. in_op ''name'' payload = Inr b"
    by (auto dest!: check_field_Inr)
  then show ?thesis
    by (cases payload) auto
qed

lemma apply_update_total:
  assumes "validateItemPayload payload True = Inr []"
  shows "\<exists>item'. apply_update payload item = Inr item'"
proof -
  obtain b1 where b1: "in_op ''name'' payload = Inr b1"
    using validate_partial_in_op [OF assms] by blast
  obtain b2 where b2: "in_op ''price'' payload = Inr b2"
    using validate_partial_in_op [OF assms] by blast
  have g1: "b1 \<Longrightarrow> \<exists>v. get payload ''name'' = Inr v"
    using b1 in_op_get [of "''name''" payload] by auto
  have g2: "b2 \<Longrightarrow> \<exists>v. get payload ''price'' = Inr v"
    using b2 in_op_get [of "''price''" payload] by auto
  from validate_partial_size [OF assms] b1 b2 g1 g2 show ?thesis
    by (auto simp: apply_update_def assign_if_present_def payload_size_def)
qed

lemma validate_partial_value:
  assumes "validateItemPayload payload True = Inr []"
    and "k \<in> {''name'', ''price''}" and "in_op k payload = Inr True"
  shows "\<exists>v. get payload k = Inr (Some v) \<and> round_trips v"
proof -
  have "\<exists>v. get payload k = Inr v
      \<and> (\<not> name_invalid v \<or> \<not> price_invalid v)"
    using validate_fields(1,2) [OF assms(1)] assms(2,3)
    by (auto dest!: check_field_Inr split: if_splits)
  then obtain v where "get payload k = Inr v" "\<not> name_invalid v \<or> \<not> price_invalid v"
    by blast
  then show ?thesis
    using name_valid_cases [of v] price_valid_cases [of v]
    by (auto simp: round_trips_def)
qed

lemma assign_if_present_round_trips:
  assumes "assign_if_present payload k rhs item = Inr item'" and "round_trips item"
    and "\<And>v. in_op k payload = Inr True \<Longrightarrow> rhs payload = Inr v \<Longrightarrow> \<exists>x. v = Some x \<and> round_trips x"
  shows "round_trips item'"
proof (cases "in_op k payload = Inr True")
  case True
  with assms(1) obtain v where v: "rhs payload = Inr v" "item' = assign item k v"
    by (auto simp: assign_if_present_def bind_def split: sum.splits)
  with assms(3) [OF True v(1)] assms(2) show ?thesis
    by (auto intro: assign_round_trips)
next
  case False
  with assms(1,2) show ?thesis
    by (auto simp: assign_if_present_def bind_def split: sum.splits if_splits)
qed

text \<open>An update with a validated payload puts no infinite number into the item.\<close>

lemma apply_update_round_trips:
  assumes "validateItemPayload payload True = Inr []" and "round_trips item"
    and "apply_update payload item = Inr item'"
  shows "round_trips item'"
proof -
  from assms(3) obtain item1 item2 where
    s1: "assign_if_present payload ''name'' (\<lambda>p. get p ''name'') item = Inr item1" and
    s2: "assign_if_present payload ''price'' (\<lambda>p. get p ''price'') item1 = Inr item2" and
    s3: "assign_if_present payload ''size'' (\<lambda>p. bind (payload_size p) (\<lambda>sz. Inr (Some sz))) item2 = Inr item'"
    by (auto simp: apply_update_def bind_def split: sum.splits)
  have pv: "\<exists>x. v = Some x \<and> round_trips x"
    if "k \<in> {''name'', ''price''}" "in_op k payload = Inr True" "get payload k = Inr v" for k v
    using validate_partial_value [OF assms(1) that(1,2)] that(3) by auto
  have "round_trips item1"
    by (rule assign_if_present_round_trips [OF s1 assms(2)]) (rule pv, simp_all)
  then have "round_trips item2"
    by (rule assign_if_present_round_trips [OF s2]) (rule pv, simp_all)
  then show "round_trips item'"
    by (rule assign_if_present_round_trips [OF s3])
      (auto simp: payload_size_def bind_def round_trips_def split: sum.splits option.splits json.splits)
qed

section \<open>Persistence\<close>

text \<open>
  C7 (as amended). \<open>readItems\<close> returns the empty list when the backing file is absent
  and also when it is empty (\<open>txt || '[]'\<close>); it raises the parser's error for every
  non-empty content that is not valid JSON; for valid JSON it returns the parsed value.
\<close>

theorem readItems_cases:
  "(data_file s = ENOENT \<longrightarrow> readItems s = Inr (JArr []))
   \<and> (data_file s = Content Empty \<longrightarrow> readItems s = Inr (JArr []))
   \<and> (data_file s = Content t \<and> t \<noteq> Empty \<and> \<not> valid_json t \<longrightarrow> readItems s = Inl SyntaxError)
   \<and> (data_file s = Content (WellFormed v) \<longrightarrow> readItems s = Inr v)"
  by (cases t) (simp_all add: readItems_def valid_json_def)

theorem readItems_cases_witness:
  "readItems \<lparr>data_file = ENOENT, write_fails = False, files = (\<lambda>p. None)\<rparr> = Inr (JArr [])
   \<and> readItems \<lparr>data_file = Content Empty, write_fails = False, files = (\<lambda>p. None)\<rparr> = Inr (JArr [])
   \<and> readItems \<lparr>data_file = Content Malformed, write_fails = False, files = (\<lambda>p. None)\<rparr> = Inl SyntaxError
   \<and> readItems \<lparr>data_file = Content (WellFormed (JArr [JStr ''a''])), write_fails = False, files = (\<lambda>p. None)\<rparr>
       = Inr (JArr [JStr ''a''])"
  using readItems_cases [of "\<lparr>data_file = ENOENT, write_fails = False, files = (\<lambda>p. None)\<rparr>" Malformed JNull]
    readItems_cases [of "\<lparr>data_file = Content Empty, write_fails = False, files = (\<lambda>p. None)\<rparr>" Malformed JNull]
    readItems_cases [of "\<lparr>data_file = Content Malformed, write_fails = False, files = (\<lambda>p. None)\<rparr>" Malformed JNull]
    readItems_cases [of "\<lparr>data_file = Content (WellFormed (JArr [JStr ''a''])), write_fails = False, files = (\<lambda>p. None)\<rparr>"
       Malformed "JArr [JStr ''a'']"]
  by (simp add: valid_json_def)

text \<open>
  The claim as stated fails on an empty backing file: the empty text is not valid JSON,
  and \<open>readItems\<close> returns the empty list instead of raising.
\<close>

theorem readItems_empty_file_counterexample:
  "\<not> valid_json Empty
   \<and> readItems \<lparr>data_file = Content Empty, write_fails = False, files = (\<lambda>p. None)\<rparr> = Inr (JArr [])"
  by (simp add: valid_json_def readItems_def)

section \<open>Request bodies\<close>

text \<open>A missing body is answered 400, by POST and by PUT.\<close>

lemma missing_body_status_400:
  "map_option status (fst (handleApi uuid
      \<lparr>req_method = ''POST'', req_pathname = ''/api/items'', req_body = Received Empty\<rparr> s)) = Some 400
   \<and> map_option status (fst (handleApi uuid
      \<lparr>req_method = ''PUT'', req_pathname = ''/api/items/a1'', req_body = Received Empty\<rparr> s)) = Some 400"
  by (simp add: handleApi_def path_segments_def route_def create_item_def update_item_def
      parseJsonBody_def failure_def json_response_def)

text \<open>
  C1. A POST or PUT whose body is not well-formed JSON should be answered with 400. In
  the code the rejection of \<open>parseJsonBody\<close> is caught by the \<open>catch\<close> of \<open>handleApi\<close>:
  the response is 500, for both methods, whatever the store holds.
\<close>

theorem malformed_body_status_500:
  "map_option status (fst (handleApi uuid
      \<lparr>req_method = ''POST'', req_pathname = ''/api/items'', req_body = Received Malformed\<rparr> s)) = Some 500
   \<and> map_option status (fst (handleApi uuid
      \<lparr>req_method = ''PUT'', req_pathname = ''/api/items/a1'', req_body = Received Malformed\<rparr> s)) = Some 500"
  by (simp add: handleApi_def path_segments_def route_def create_item_def update_item_def
      parseJsonBody_def failure_def json_response_def)

section \<open>Updating an item\<close>

lemma route_put: "route uuid ''PUT'' (Some id') b s = update_item id' b s"
  by (simp add: route_def)

lemma update_item_missing_body:
  "b = Received Empty \<or> (\<exists>p. b = Received (WellFormed p) \<and> \<not> truthy p) \<Longrightarrow>
   update_item id' b s = Inr (failure 400 ''Missing JSON body'', s)"
  by (auto simp: update_item_def parseJsonBody_def)

lemma update_item_invalid:
  "truthy payload \<Longrightarrow> validateItemPayload payload True = Inr errors \<Longrightarrow> errors \<noteq> [] \<Longrightarrow>
   update_item id' (Received (WellFormed payload)) s =
     Inr (json_response 422 [(''success'', JBool False), (''errors'', JArr (map JStr errors))], s)"
  by (simp add: update_item_def parseJsonBody_def)

lemma update_item_absent:
  assumes "truthy payload" and "validateItemPayload payload True = Inr []"
    and "readItems s = Inr (JArr items)" and "JNull \<notin> set items"
    and "\<forall>i\<in>set items. \<not> has_id id' i"
  shows "update_item id' (Received (WellFormed payload)) s = Inr (failure 404 ''Item not found'', s)"
  using assms findIndex_absent [of items id']
  by (simp add: update_item_def parseJsonBody_def as_array_def)

lemma update_item_found:
  assumes "truthy payload" and "validateItemPayload payload True = Inr []"
    and "readItems s = Inr (JArr (pre @ item # post))" and "JNull \<notin> set pre"
    and "\<forall>i\<in>set pre. \<not> has_id id' i" and "has_id id' item"
    and "\<not> write_fails s" and "apply_update payload item = Inr item'"
    and "\<forall>i\<in>set (pre @ item # post). round_trips i"
  shows "update_item id' (Received (WellFormed payload)) s =
     Inr (success 200 item', s\<lparr>data_file := Content (WellFormed (JArr (pre @ item' # post)))\<rparr>)"
proof -
  have "round_trips item"
    using assms(9) by simp
  with assms(2) have "round_trips item'"
    using assms(8) by (rule apply_update_round_trips)
  with assms(9) have "\<forall>i\<in>set (pre @ item' # post). round_trips i"
    by simp
  with assms(7) have "writeItems (pre @ item' # post) s =
      Inr (s\<lparr>data_file := Content (WellFormed (JArr (pre @ item' # post)))\<rparr>)"
    by (rule writeItems_round_trips)
  with assms findIndex_first [of pre id' item post] show ?thesis
    by (simp add: update_item_def parseJsonBody_def as_array_def)
qed

text \<open>
  C2 (as amended). A PUT on an id that no stored item has is answered 404 when the body
  is present and passes partial validation. The body is examined first: a missing body
  (or a falsy JSON value) is answered 400 and a payload that fails validation 422, and
  nothing is written in any of the three cases.
\<close>

theorem put_unknown_id:
  assumes "req_method req = ''PUT''"
    and "path_segments (req_pathname req) = ''api'' # ''items'' # id' # rest"
    and "readItems s = Inr (JArr items)"
    and "JNull \<notin> set items"
    and "\<forall>i\<in>set items. \<not> has_id id' i"
  shows "(req_body req = Received Empty \<or> (\<exists>p. req_body req = Received (WellFormed p) \<and> \<not> truthy p)
            \<longrightarrow> handleApi uuid req s = (Some (failure 400 ''Missing JSON body''), s))
       \<and> (req_body req = Received (WellFormed payload) \<and> truthy payload
            \<and> validateItemPayload payload True = Inr errors \<and> errors \<noteq> []
            \<longrightarrow> map_option status (fst (handleApi uuid req s)) = Some 422
                \<and> snd (handleApi uuid req s) = s)
       \<and> (req_body req = Received (WellFormed payload) \<and> truthy payload
            \<and> validateItemPayload payload True = Inr []
            \<longrightarrow> handleApi uuid req s = (Some (failure 404 ''Item not found''), s))"
proof -
  note route = handleApi_member [OF assms(2), of uuid s, unfolded assms(1) route_put]
  have c400: "handleApi uuid req s = (Some (failure 400 ''Missing JSON body''), s)"
    if "req_body req = Received Empty \<or> (\<exists>p. req_body req = Received (WellFormed p) \<and> \<not> truthy p)"
    using update_item_missing_body [OF that, of id' s] by (simp add: route)
  have c422: "map_option status (fst (handleApi uuid req s)) = Some 422 \<and> snd (handleApi uuid req s) = s"
    if "req_body req = Received (WellFormed payload)" "truthy payload"
      "validateItemPayload payload True = Inr errors" "errors \<noteq> []"
    using update_item_invalid [OF that(2-4), of id' s] that(1)
    by (simp add: route json_response_def)
  have c404: "handleApi uuid req s = (Some (failure 404 ''Item not found''), s)"
    if "req_body req = Received (WellFormed payload)" "truthy payload"
      "validateItemPayload payload True = Inr []"
    using update_item_absent [OF that(2,3) assms(3-5)] that(1)
    by (simp add: route)
  from c400 c422 c404 show ?thesis
    by blast
qed

theorem put_unknown_id_witness:
  "handleApi ''u'' (put ''/api/items/zz'' Empty) shop = (Some (failure 400 ''Missing JSON body''), shop)
   \<and> map_option status (fst (handleApi ''u''
         (put ''/api/items/zz'' (WellFormed (JObj [(''price'', JNum (Finite (- 1)))]))) shop)) = Some 422
   \<and> handleApi ''u'' (put ''/api/items/zz'' (WellFormed (JObj [(''price'', JNum (Finite 5))]))) shop
       = (Some (failure 404 ''Item not found''), shop)"
proof -
  have m: "req_method (put p b) = ''PUT''" "req_body (put p b) = Received b" for p b
    by (simp_all add: put_def)
  have seg: "path_segments (req_pathname (put ''/api/items/zz'' b)) = ''api'' # ''items'' # ''zz'' # []" for b
    by (simp add: put_def path_segments_def)
  have rd: "readItems shop = Inr (JArr [mug, cap])"
    by (simp add: shop_def disk_def readItems_def)
  have nn: "JNull \<notin> set [mug, cap]"
    by (simp add: mug_def cap_def)
  have ni: "\<forall>i\<in>set [mug, cap]. \<not> has_id ''zz'' i"
    by (simp add: mug_def cap_def has_id_def)
  have v1: "validateItemPayload (JObj [(''price'', JNum (Finite (- 1)))]) True
              = Inr [''price must be a non-negative number'']"
    by code_simp
  have v2: "validateItemPayload (JObj [(''price'', JNum (Finite 5))]) True = Inr []"
    by code_simp
  show ?thesis
    using put_unknown_id [where uuid = "''u''" and payload = "JObj []" and errors = "[]",
         OF m(1) seg [of Empty] rd nn ni]
      put_unknown_id [where uuid = "''u''" and payload = "JObj [(''price'', JNum (Finite (- 1)))]"
         and errors = "[''price must be a non-negative number'']",
         OF m(1) seg [of "WellFormed (JObj [(''price'', JNum (Finite (- 1)))])"] rd nn ni]
      put_unknown_id [where uuid = "''u''" and payload = "JObj [(''price'', JNum (Finite 5))]"
         and errors = "[]",
         OF m(1) seg [of "WellFormed (JObj [(''price'', JNum (Finite 5))])"] rd nn ni]
      v1 v2
    by (simp add: m)
qed

text \<open>
  The claim as stated fails for an empty body: no item is stored at all, and the
  response is 400.
\<close>

theorem put_unknown_id_counterexample:
  "readItems (disk ENOENT) = Inr (JArr [])
   \<and> map_option status (fst (handleApi ''u'' (put ''/api/items/zz'' Empty) (disk ENOENT))) = Some 400"
  by (simp add: readItems_def disk_def put_def handleApi_def path_segments_def route_def
      update_item_def parseJsonBody_def failure_def json_response_def)

lemma has_id_object: "has_id id' item \<Longrightarrow> \<exists>kvs. item = JObj kvs \<and> map_of kvs ''id'' = Some (JStr id')"
  by (cases item) (simp_all add: has_id_def)

lemma validate_empty_object: "validateItemPayload (JObj []) True = Inr []"
  by (simp add: validateItemPayload_def check_field_def)

lemma apply_update_empty_object: "apply_update (JObj []) item = Inr item"
  by (simp add: apply_update_def assign_if_present_def)

lemma apply_update_price_only:
  "apply_update (JObj [(''price'', p)]) item = Inr (assign item ''price'' (Some p))"
  by (simp add: apply_update_def assign_if_present_def)

text \<open>
  C9. A PUT on an existing item whose body is the JSON object \<open>{}\<close> passes validation
  with no error, is answered 200 with the item as it was, and leaves the collection
  as it was.
\<close>

theorem put_empty_object:
  assumes "req_method req = ''PUT''"
    and "path_segments (req_pathname req) = ''api'' # ''items'' # id' # rest"
    and "req_body req = Received (WellFormed (JObj []))"
    and "readItems s = Inr (JArr (pre @ item # post))"
    and "JNull \<notin> set pre"
    and "\<forall>i\<in>set pre. \<not> has_id id' i"
    and "has_id id' item"
    and "\<not> write_fails s"
    and "\<forall>i\<in>set (pre @ item # post). round_trips i"
  shows "validateItemPayload (JObj []) True = Inr []
       \<and> fst (handleApi uuid req s) = Some (success 200 item)
       \<and> readItems (snd (handleApi uuid req s)) = readItems s"
proof -
  have "update_item id' (Received (WellFormed (JObj []))) s =
     Inr (success 200 item, s\<lparr>data_file := Content (WellFormed (JArr (pre @ item # post)))\<rparr>)"
    using update_item_found [OF _ validate_empty_object assms(4-8) apply_update_empty_object assms(9)]
    by simp
  then have "handleApi uuid req s =
     (Some (success 200 item), s\<lparr>data_file := Content (WellFormed (JArr (pre @ item # post)))\<rparr>)"
    by (simp add: handleApi_member [OF assms(2)] assms(1,3) route_put)
  then show ?thesis
    using assms(4) by (simp add: validate_empty_object readItems_def)
qed

theorem put_empty_object_witness:
  "fst (handleApi ''u'' (put ''/api/items/b2'' (WellFormed (JObj []))) shop) = Some (success 200 cap)
   \<and> readItems (snd (handleApi ''u'' (put ''/api/items/b2'' (WellFormed (JObj []))) shop))
       = Inr (JArr [mug, cap])"
proof -
  have m: "req_method (put p b) = ''PUT''" "req_body (put p b) = Received b" for p b
    by (simp_all add: put_def)
  have seg: "path_segments (req_pathname (put ''/api/items/b2'' b)) = ''api'' # ''items'' # ''b2'' # []" for b
    by (simp add: put_def path_segments_def)
  have rd: "readItems shop = Inr (JArr ([mug] @ cap # []))"
    by (simp add: shop_def disk_def readItems_def)
  have nn: "JNull \<notin> set [mug]"
    by (simp add: mug_def)
  have ni: "\<forall>i\<in>set [mug]. \<not> has_id ''b2'' i"
    by (simp add: mug_def has_id_def)
  have hi: "has_id ''b2'' cap"
    by (simp add: cap_def has_id_def)
  have w: "\<not> write_fails shop"
    by (simp add: shop_def disk_def)
  have rt: "\<forall>i\<in>set ([mug] @ cap # []). round_trips i"
    by (simp add: mug_def cap_def round_trips_def)
  show ?thesis
    using put_empty_object [OF m(1) seg m(2) rd nn ni hi w rt, of "''u''"] rd
    by simp
qed

text \<open>
  C4. A successful PUT replaces the addressed item (the first one with the id) and no
  other element of the collection. In the new item every property other than
  \<open>name\<close>, \<open>price\<close> and \<open>size\<close>, and each of these three that the payload does not
  have, reads as before; with a payload that holds only \<open>price\<close> the price becomes the
  payload's and \<open>name\<close>, \<open>size\<close> and \<open>id\<close> read as before.
\<close>

theorem put_changes_only_payload_fields:
  assumes "req_method req = ''PUT''"
    and "path_segments (req_pathname req) = ''api'' # ''items'' # id' # rest"
    and "req_body req = Received (WellFormed payload)"
    and "truthy payload"
    and "validateItemPayload payload True = Inr []"
    and "readItems s = Inr (JArr (pre @ item # post))"
    and "JNull \<notin> set pre"
    and "\<forall>i\<in>set pre. \<not> has_id id' i"
    and "has_id id' item"
    and "\<not> write_fails s"
    and "\<forall>i\<in>set (pre @ item # post). round_trips i"
  shows "\<exists>item'.
           handleApi uuid req s =
             (Some (success 200 item'),
              s\<lparr>data_file := Content (WellFormed (JArr (pre @ item' # post)))\<rparr>)
         \<and> (\<forall>k. k \<notin> {''name'', ''price'', ''size''} \<or> in_op k payload = Inr False
                \<longrightarrow> get item' k = get item k)
         \<and> (\<forall>p. payload = JObj [(''price'', p)]
                \<longrightarrow> get item' ''price'' = Inr (Some p)
                  \<and> get item' ''name'' = get item ''name''
                  \<and> get item' ''size'' = get item ''size''
                  \<and> get item' ''id'' = get item ''id'')"
proof -
  obtain item' where upd: "apply_update payload item = Inr item'"
    using apply_update_total [OF assms(5)] by blast
  have "update_item id' (Received (WellFormed payload)) s =
     Inr (success 200 item', s\<lparr>data_file := Content (WellFormed (JArr (pre @ item' # post)))\<rparr>)"
    using assms(4-10) upd assms(11) by (rule update_item_found)
  then have run: "handleApi uuid req s =
     (Some (success 200 item'), s\<lparr>data_file := Content (WellFormed (JArr (pre @ item' # post)))\<rparr>)"
    by (simp add: handleApi_member [OF assms(2)] assms(1,3) route_put)
  have frame: "get item' k = get item k"
    if "k \<notin> {''name'', ''price'', ''size''} \<or> in_op k payload = Inr False" for k
    using upd that by (rule apply_update_frame)
  have price: "get item' ''price'' = Inr (Some p)
      \<and> get item' ''name'' = get item ''name''
      \<and> get item' ''size'' = get item ''size''
      \<and> get item' ''id'' = get item ''id''"
    if "payload = JObj [(''price'', p)]" for p
  proof -
    obtain kvs where "item = JObj kvs"
      using has_id_object [OF assms(9)] by blast
    moreover have "item' = assign item ''price'' (Some p)"
      using upd that by (simp add: apply_update_price_only)
    ultimately have "get item' ''price'' = Inr (Some p)"
      by (simp add: update_conv')
    moreover have "get item' ''name'' = get item ''name''"
      "get item' ''size'' = get item ''size''" "get item' ''id'' = get item ''id''"
      using that by (simp_all add: frame)
    ultimately show ?thesis
      by simp
  qed
  from run frame price show ?thesis
    by blast
qed

theorem put_changes_only_payload_fields_witness:
  "\<exists>item'.
     handleApi ''u'' (put ''/api/items/b2'' (WellFormed (JObj [(''price'', JNum (Finite 5))]))) shop =
       (Some (success 200 item'), disk (Content (WellFormed (JArr [mug, item']))))
     \<and> get item' ''price'' = Inr (Some (JNum (Finite 5)))
     \<and> get item' ''name'' = Inr (Some (JStr ''cap''))
     \<and> get item' ''size'' = Inr (Some (JStr ''m''))
     \<and> get item' ''id'' = Inr (Some (JStr ''b2''))"
proof -
  have m: "req_method (put p b) = ''PUT''" "req_body (put p b) = Received b" for p b
    by (simp_all add: put_def)
  have seg: "path_segments (req_pathname (put ''/api/items/b2'' b)) = ''api'' # ''items'' # ''b2'' # []" for b
    by (simp add: put_def path_segments_def)
  have rd: "readItems shop = Inr (JArr ([mug] @ cap # []))"
    by (simp add: shop_def disk_def readItems_def)
  have nn: "JNull \<notin> set [mug]"
    by (simp add: mug_def)
  have ni: "\<forall>i\<in>set [mug]. \<not> has_id ''b2'' i"
    by (simp add: mug_def has_id_def)
  have hi: "has_id ''b2'' cap"
    by (simp add: cap_def has_id_def)
  have w: "\<not> write_fails shop"
    by (simp add: shop_def disk_def)
  have v: "validateItemPayload (JObj [(''price'', JNum (Finite 5))]) True = Inr []"
    by code_simp
  have t: "truthy (JObj [(''price'', JNum (Finite 5))])"
    by simp
  have rt: "\<forall>i\<in>set ([mug] @ cap # []). round_trips i"
    by (simp add: mug_def cap_def round_trips_def)
  obtain item' where
    run: "handleApi ''u'' (put ''/api/items/b2'' (WellFormed (JObj [(''price'', JNum (Finite 5))]))) shop =
       (Some (success 200 item'), shop\<lparr>data_file := Content (WellFormed (JArr ([mug] @ item' # [])))\<rparr>)"
    and fields: "get item' ''price'' = Inr (Some (JNum (Finite 5)))"
      "get item' ''name'' = get cap ''name''" "get item' ''size'' = get cap ''size''"
      "get item' ''id'' = get cap ''id''"
    using put_changes_only_payload_fields [OF m(1) seg m(2) t v rd nn ni hi w rt, of "''u''"]
    by blast
  from run fields show ?thesis
    by (simp add: shop_def disk_def cap_def)
qed

section \<open>Reading and deleting an item\<close>

lemma route_get: "route uuid ''GET'' (Some id') b s = get_item id' s"
  by (simp add: route_def)

lemma route_delete: "route uuid ''DELETE'' (Some id') b s = delete_item id' s"
  by (simp add: route_def)


lemma get_item_absent:
  assumes "readItems s = Inr (JArr items)" and "JNull \<notin> set items"
    and "\<forall>i\<in>set items. \<not> has_id id' i"
  shows "get_item id' s = Inr (failure 404 ''Item not found'', s)"
  using assms find_item_absent [of items id']
  by (simp add: get_item_def as_array_def)


lemma delete_item_found:
  assumes "readItems s = Inr (JArr (pre @ item # post))" and "JNull \<notin> set pre"
    and "\<forall>i\<in>set pre. \<not> has_id id' i" and "has_id id' item" and "\<not> write_fails s"
    and "\<forall>i\<in>set (pre @ post). round_trips i"
  shows "delete_item id' s =
     Inr (success 200 item, s\<lparr>data_file := Content (WellFormed (JArr (pre @ post)))\<rparr>)"
  using assms findIndex_first [of pre id' item post] writeItems_round_trips [OF assms(5,6)]
  by (simp add: delete_item_def as_array_def)

lemma readItems_written:
  "readItems (s\<lparr>data_file := Content (WellFormed v)\<rparr>) = Inr v"
  by (simp add: readItems_def)

text \<open>
  C8. When the collection holds an item with the id (and, ids being unique, no other
  element has it), DELETE is answered 200 with that item, the collection written is the
  old one without it, and a GET for the id on the new state is answered 404.
\<close>

theorem delete_then_get:
  assumes "req_method req = ''DELETE''"
    and "path_segments (req_pathname req) = ''api'' # ''items'' # id' # rest"
    and "readItems s = Inr (JArr (pre @ item # post))"
    and "JNull \<notin> set (pre @ post)"
    and "\<forall>i\<in>set (pre @ post). \<not> has_id id' i"
    and "has_id id' item"
    and "\<not> write_fails s"
    and "\<forall>i\<in>set (pre @ post). round_trips i"
    and "req_method greq = ''GET''"
    and "path_segments (req_pathname greq) = ''api'' # ''items'' # id' # rest'"
  shows "fst (handleApi uuid req s) = Some (success 200 item)
       \<and> readItems (snd (handleApi uuid req s)) = Inr (JArr (pre @ post))
       \<and> item \<notin> set (pre @ post)
       \<and> fst (handleApi uuid' greq (snd (handleApi uuid req s))) = Some (failure 404 ''Item not found'')"
proof -
  let ?s' = "s\<lparr>data_file := Content (WellFormed (JArr (pre @ post)))\<rparr>"
  have "delete_item id' s = Inr (success 200 item, ?s')"
    using assms(3-8) by (intro delete_item_found) simp_all
  then have run: "handleApi uuid req s = (Some (success 200 item), ?s')"
    by (simp add: handleApi_member [OF assms(2)] assms(1) route_delete)
  have rd: "readItems ?s' = Inr (JArr (pre @ post))"
    by (rule readItems_written)
  have "get_item id' ?s' = Inr (failure 404 ''Item not found'', ?s')"
    using rd assms(4,5) by (rule get_item_absent)
  then have after: "handleApi uuid' greq ?s' = (Some (failure 404 ''Item not found''), ?s')"
    by (simp add: handleApi_member [OF assms(10)] assms(9) route_get)
  have gone: "item \<notin> set (pre @ post)"
    using assms(5,6) by blast
  from run rd after gone show ?thesis
    by simp
qed

theorem delete_then_get_witness:
  "fst (handleApi ''u'' (delete_req ''/api/items/a1'') shop) = Some (success 200 mug)
   \<and> readItems (snd (handleApi ''u'' (delete_req ''/api/items/a1'') shop)) = Inr (JArr [cap])
   \<and> fst (handleApi ''u'' (get_req ''/api/items/a1'')
             (snd (handleApi ''u'' (delete_req ''/api/items/a1'') shop)))
       = Some (failure 404 ''Item not found'')"
proof -
  have m: "req_method (delete_req ''/api/items/a1'') = ''DELETE''"
    "req_method (get_req ''/api/items/a1'') = ''GET''"
    by (simp_all add: delete_req_def get_req_def)
  have seg: "path_segments (req_pathname (delete_req ''/api/items/a1'')) = ''api'' # ''items'' # ''a1'' # []"
    "path_segments (req_pathname (get_req ''/api/items/a1'')) = ''api'' # ''items'' # ''a1'' # []"
    by (simp_all add: delete_req_def get_req_def path_segments_def)
  have rd: "readItems shop = Inr (JArr ([] @ mug # [cap]))"
    by (simp add: shop_def disk_def readItems_def)
  have nn: "JNull \<notin> set ([] @ [cap])"
    by (simp add: cap_def)
  have ni: "\<forall>i\<in>set ([] @ [cap]). \<not> has_id ''a1'' i"
    by (simp add: cap_def has_id_def)
  have hi: "has_id ''a1'' mug"
    by (simp add: mug_def has_id_def)
  have w: "\<not> write_fails shop"
    by (simp add: shop_def disk_def)
  have rt: "\<forall>i\<in>set ([] @ [cap]). round_trips i"
    by (simp add: cap_def round_trips_def)
  show ?thesis
    using delete_then_get [OF m(1) seg(1) rd nn ni hi w rt m(2) seg(2), of "''u''" "''u''"]
    by simp
qed

section \<open>Creating an item\<close>

lemma new_item_valid:
  assumes "validateItemPayload payload False = Inr []"
  shows "\<exists>n r sz. get payload ''name'' = Inr (Some (JStr n))
            \<and> get payload ''price'' = Inr (Some (JNum (Finite r)))
            \<and> get payload ''size'' = Inr (Some (JStr sz))
            \<and> toLowerCase sz \<in> set allowedSizes
            \<and> new_item uuid payload =
                Inr (JObj [(''id'', JStr uuid), (''name'', JStr n), (''price'', JNum (Finite r)),
                           (''size'', JStr (canonical_size sz))])"
proof -
  from validate_full [OF assms] obtain n r sz where
    "get payload ''name'' = Inr (Some (JStr n))"
    "get payload ''price'' = Inr (Some (JNum (Finite r)))"
    "get payload ''size'' = Inr (Some (JStr sz))" "toLowerCase sz \<in> set allowedSizes"
    by blast
  then show ?thesis
    by (simp add: new_item_def payload_size_def field_def)
qed






section \<open>Size normalisation\<close>




lemma apply_update_steps:
  assumes "apply_update payload item = Inr item'"
  obtains item1 item2 where
    "assign_if_present payload ''name'' (\<lambda>p. get p ''name'') item = Inr item1"
    "assign_if_present payload ''price'' (\<lambda>p. get p ''price'') item1 = Inr item2"
    "assign_if_present payload ''size'' (\<lambda>p. bind (payload_size p) (\<lambda>sz. Inr (Some sz))) item2 = Inr item'"
  using assms by (auto simp: apply_update_def bind_def split: sum.splits)




section \<open>The shape of stored items\<close>

lemma findIndex_Some:
  "findIndex id' items = Inr (Some idx) \<Longrightarrow> idx < length items \<and> has_id id' (items ! idx)"
proof (induction items arbitrary: idx)
  case Nil
  then show ?case by simp
next
  case (Cons i items)
  show ?case
  proof (cases "get i ''id'' = Inr (Some (JStr id'))")
    case True
    with Cons.prems show ?thesis
      by (simp add: has_id_def)
  next
    case False
    with Cons.prems obtain j where "findIndex id' items = Inr (Some j)" "idx = Suc j"
      by (auto simp: bind_def split: sum.splits if_splits)
    with Cons.IH [of j] show ?thesis
      by simp
  qed
qed

lemma list_items_state: "list_items s = Inr (r, s') \<Longrightarrow> s' = s"
  by (auto simp: list_items_def bind_def split: sum.splits)

lemma get_item_state: "get_item id' s = Inr (r, s') \<Longrightarrow> s' = s"
  by (auto simp: get_item_def bind_def split: sum.splits option.splits)

lemma create_item_effect:
  assumes "create_item uuid b s = Inr (r, s')" and "readItems s = Inr (JArr items)"
    and "\<forall>i\<in>set items. round_trips i"
  shows "s' = s
     \<or> (\<exists>n p sz. round_trips (JObj [(''id'', JStr uuid), (''name'', n), (''price'', p), (''size'', sz)])
          \<and> s' = s\<lparr>data_file := Content (WellFormed (JArr (items @
           [JObj [(''id'', JStr uuid), (''name'', n), (''price'', p), (''size'', sz)]])))\<rparr>)"
proof -
  from assms(1) obtain payload where pb: "parseJsonBody b = Inr payload"
    by (auto simp: create_item_def bind_def split: sum.splits)
  show ?thesis
  proof (cases "truthy payload")
    case False
    with assms(1) pb show ?thesis
      by (simp add: create_item_def)
  next
    case True
    with assms(1) pb obtain errors where v: "validateItemPayload payload False = Inr errors"
      by (auto simp: create_item_def bind_def split: sum.splits)
    show ?thesis
    proof (cases "errors = []")
      case False
      with assms(1) pb True v show ?thesis
        by (simp add: create_item_def)
    next
      case e: True
      from new_item_valid [of payload uuid] v e obtain n r' sz where
        new: "new_item uuid payload =
          Inr (JObj [(''id'', JStr uuid), (''name'', JStr n), (''price'', JNum (Finite r')),
                     (''size'', JStr (canonical_size sz))])"
        by auto
      have rt: "round_trips (JObj [(''id'', JStr uuid), (''name'', JStr n),
          (''price'', JNum (Finite r')), (''size'', JStr (canonical_size sz))])"
        by (simp add: round_trips_def)
      with assms(3) have "\<forall>i\<in>set (items @ [JObj [(''id'', JStr uuid), (''name'', JStr n),
          (''price'', JNum (Finite r')), (''size'', JStr (canonical_size sz))]]). round_trips i"
        by simp
      then have "map reparse (items @ [JObj [(''id'', JStr uuid), (''name'', JStr n),
          (''price'', JNum (Finite r')), (''size'', JStr (canonical_size sz))]]) =
        items @ [JObj [(''id'', JStr uuid), (''name'', JStr n),
          (''price'', JNum (Finite r')), (''size'', JStr (canonical_size sz))]]"
        by (rule map_reparse_id)
      with assms(1,2) pb True v e new rt show ?thesis
        by (auto simp: create_item_def as_array_def writeItems_def split: if_splits)
    qed
  qed
qed

lemma update_item_effect:
  assumes "update_item id' b s = Inr (r, s')" and "readItems s = Inr (JArr items)"
    and "\<forall>i\<in>set items. round_trips i"
  shows "s' = s
     \<or> (\<exists>idx payload item'. idx < length items \<and> round_trips item'
          \<and> apply_update payload (items ! idx) = Inr item'
          \<and> s' = s\<lparr>data_file := Content (WellFormed (JArr (items[idx := item'])))\<rparr>)"
proof -
  from assms(1) obtain payload where pb: "parseJsonBody b = Inr payload"
    by (auto simp: update_item_def bind_def split: sum.splits)
  show ?thesis
  proof (cases "truthy payload")
    case False
    with assms(1) pb show ?thesis
      by (simp add: update_item_def)
  next
    case True
    with assms(1) pb obtain errors where v: "validateItemPayload payload True = Inr errors"
      by (auto simp: update_item_def bind_def split: sum.splits)
    show ?thesis
    proof (cases "errors = []")
      case False
      with assms(1) pb True v show ?thesis
        by (simp add: update_item_def)
    next
      case e: True
      with assms pb True v obtain found where f: "findIndex id' items = Inr found"
        by (auto simp: update_item_def as_array_def bind_def split: sum.splits)
      show ?thesis
      proof (cases found)
        case None
        with assms pb True v e f show ?thesis
          by (simp add: update_item_def as_array_def)
      next
        case (Some idx)
        with f have idx: "idx < length items"
          using findIndex_Some by blast
        from assms(1,2) pb True v e f Some obtain item' where
          upd: "apply_update payload (items ! idx) = Inr item'"
          by (auto simp: update_item_def as_array_def bind_def split: sum.splits)
        have "round_trips (items ! idx)"
          using idx assms(3) by simp
        with v e have rt: "round_trips item'"
          using upd by (simp add: apply_update_round_trips [of payload "items ! idx"])
        have "\<forall>i\<in>set (items[idx := item']). round_trips i"
          using assms(3) rt by (auto dest!: set_update_subset_insert [THEN subsetD])
        then have "map reparse (items[idx := item']) = items[idx := item']"
          by (rule map_reparse_id)
        with assms(1,2) pb True v e f Some idx upd rt show ?thesis
          by (auto simp: update_item_def as_array_def writeItems_def split: if_splits)
      qed
    qed
  qed
qed

lemma delete_item_effect:
  assumes "delete_item id' s = Inr (r, s')" and "readItems s = Inr (JArr items)"
    and "\<forall>i\<in>set items. round_trips i"
  shows "s' = s
     \<or> (\<exists>idx<length items.
           s' = s\<lparr>data_file := Content (WellFormed (JArr (take idx items @ drop (Suc idx) items)))\<rparr>)"
proof -
  from assms obtain found where f: "findIndex id' items = Inr found"
    by (auto simp: delete_item_def as_array_def bind_def split: sum.splits)
  show ?thesis
  proof (cases found)
    case None
    with assms f show ?thesis
      by (simp add: delete_item_def as_array_def)
  next
    case (Some idx)
    with f have idx: "idx < length items"
      using findIndex_Some by blast
    have "\<forall>i\<in>set (take idx items @ drop (Suc idx) items). round_trips i"
      using assms(3) by (auto dest: in_set_takeD in_set_dropD)
    then have "map reparse (take idx items @ drop (Suc idx) items) =
        take idx items @ drop (Suc idx) items"
      by (rule map_reparse_id)
    with assms(1,2) f Some idx show ?thesis
      by (auto simp: delete_item_def as_array_def writeItems_def split: if_splits)
  qed
qed

lemma route_effect:
  assumes "route uuid m id' b s = Inr (r, s')"
  shows "s' = s
     \<or> (m = ''POST'' \<and> create_item uuid b s = Inr (r, s'))
     \<or> (m = ''PUT'' \<and> (\<exists>i. update_item i b s = Inr (r, s')))
     \<or> (m = ''DELETE'' \<and> (\<exists>i. delete_item i s = Inr (r, s')))"
  using assms
  by (auto simp: route_def split: if_splits dest: list_items_state get_item_state)

lemma handleApi_state:
  "snd (handleApi uuid req s) = s
   \<or> (\<exists>id' r. route uuid (req_method req) id' (req_body req) s = Inr (r, snd (handleApi uuid req s)))"
  by (auto simp: handleApi_def Let_def split: list.splits sum.splits prod.splits)

lemma assign_keeps_shape:
  assumes "is_item item" and "k \<in> {''name'', ''price'', ''size''}"
  shows "is_item (assign item k (Some v))"
proof -
  from assms(1) obtain kvs where "item = JObj kvs" "map fst kvs = [''id'', ''name'', ''price'', ''size'']"
    by (cases item) simp_all
  with assms(2) show ?thesis
    by (auto simp: update_keys)
qed

lemma assign_if_present_shape:
  assumes "assign_if_present payload k rhs item = Inr item'" and "is_item item"
    and "k \<in> {''name'', ''price'', ''size''}"
    and "\<And>v. in_op k payload = Inr True \<Longrightarrow> rhs payload = Inr v \<Longrightarrow> v \<noteq> None"
  shows "is_item item'"
proof (cases "in_op k payload = Inr True")
  case True
  with assms(1) obtain v where "rhs payload = Inr v" "item' = assign item k v"
    by (auto simp: assign_if_present_def bind_def split: sum.splits)
  with assms(4) [OF True] obtain x where "item' = assign item k (Some x)"
    by (cases v) auto
  with assms(2,3) show ?thesis
    using assign_keeps_shape by blast
next
  case False
  with assms(1,2) show ?thesis
    by (auto simp: assign_if_present_def bind_def split: sum.splits if_splits)
qed

lemma apply_update_shape:
  assumes "apply_update payload item = Inr item'" and "is_item item"
  shows "is_item item' \<and> get item' ''id'' = get item ''id''"
proof -
  from assms(1) obtain item1 item2 where
    s1: "assign_if_present payload ''name'' (\<lambda>p. get p ''name'') item = Inr item1" and
    s2: "assign_if_present payload ''price'' (\<lambda>p. get p ''price'') item1 = Inr item2" and
    s3: "assign_if_present payload ''size'' (\<lambda>p. bind (payload_size p) (\<lambda>sz. Inr (Some sz))) item2 = Inr item'"
    by (rule apply_update_steps)
  have some: "v \<noteq> None" if "in_op k payload = Inr True" "get payload k = Inr v" for k v
    using in_op_get [OF that(1)] that(2) by auto
  have "is_item item1"
    by (rule assign_if_present_shape [OF s1 assms(2) _ some]) simp_all
  then have "is_item item2"
    by (rule assign_if_present_shape [OF s2 _ _ some]) simp_all
  then have "is_item item'"
    by (rule assign_if_present_shape [OF s3]) (auto simp: bind_def split: sum.splits)
  moreover have "get item' ''id'' = get item ''id''"
    using assms(1) by (rule apply_update_frame) simp
  ultimately show ?thesis ..
qed

text \<open>
  C10. Whatever the request, when every element of the collection has exactly the fields
  \<open>id\<close>, \<open>name\<close>, \<open>price\<close>, \<open>size\<close> (and no infinite number, so that it is written
  as it is), so has every element of the collection after the request. The new
  collection is the old one, or (POST) the old one followed by one item of these four
  fields whose id is the server's, whatever keys the payload had, or (PUT) the old one
  with one item replaced by an item with the same id, or (DELETE) the old one without
  one of its items. The empty collection of an absent file satisfies the hypothesis.
\<close>

theorem items_keep_fields_and_id:
  assumes "readItems s = Inr (JArr items)" and "\<forall>i\<in>set items. is_item i \<and> round_trips i"
  shows "\<exists>items'. readItems (snd (handleApi uuid req s)) = Inr (JArr items')
       \<and> (\<forall>i\<in>set items'. is_item i \<and> round_trips i)
       \<and> (items' = items
          \<or> (req_method req = ''POST''
               \<and> (\<exists>n p sz. items' = items @
                     [JObj [(''id'', JStr uuid), (''name'', n), (''price'', p), (''size'', sz)]]))
          \<or> (req_method req = ''PUT''
               \<and> (\<exists>idx item'. idx < length items \<and> items' = items[idx := item']
                     \<and> get item' ''id'' = get (items ! idx) ''id''))
          \<or> (req_method req = ''DELETE''
               \<and> (\<exists>idx<length items. items' = take idx items @ drop (Suc idx) items)))"
proof -
  let ?s' = "snd (handleApi uuid req s)"
  from assms(2) have shape: "\<forall>i\<in>set items. is_item i" and rt: "\<forall>i\<in>set items. round_trips i"
    by simp_all
  consider (same) "?s' = s"
    | (post) r where "req_method req = ''POST''" "create_item uuid (req_body req) s = Inr (r, ?s')"
    | (put) r i where "req_method req = ''PUT''" "update_item i (req_body req) s = Inr (r, ?s')"
    | (delete) r i where "req_method req = ''DELETE''" "delete_item i s = Inr (r, ?s')"
    using handleApi_state [of uuid req s] route_effect by blast
  then show ?thesis
  proof cases
    case same
    with assms show ?thesis
      by (intro exI [of _ items]) simp
  next
    case post
    from create_item_effect [OF post(2) assms(1) rt] show ?thesis
    proof
      assume "?s' = s"
      with assms show ?thesis
        by (intro exI [of _ items]) simp
    next
      assume "\<exists>n p sz. round_trips (JObj [(''id'', JStr uuid), (''name'', n), (''price'', p), (''size'', sz)])
          \<and> ?s' = s\<lparr>data_file := Content (WellFormed (JArr (items @
           [JObj [(''id'', JStr uuid), (''name'', n), (''price'', p), (''size'', sz)]])))\<rparr>"
      then obtain n p sz where
        "round_trips (JObj [(''id'', JStr uuid), (''name'', n), (''price'', p), (''size'', sz)])"
        "?s' = s\<lparr>data_file := Content (WellFormed (JArr (items @
           [JObj [(''id'', JStr uuid), (''name'', n), (''price'', p), (''size'', sz)]])))\<rparr>"
        by blast
      with assms(2) post(1) show ?thesis
        by (intro exI [of _ "items @ [JObj [(''id'', JStr uuid), (''name'', n), (''price'', p), (''size'', sz)]]"])
          (auto simp: readItems_written)
    qed
  next
    case put
    from update_item_effect [OF put(2) assms(1) rt] show ?thesis
    proof
      assume "?s' = s"
      with assms show ?thesis
        by (intro exI [of _ items]) simp
    next
      assume "\<exists>idx payload item'. idx < length items \<and> round_trips item'
          \<and> apply_update payload (items ! idx) = Inr item'
          \<and> ?s' = s\<lparr>data_file := Content (WellFormed (JArr (items[idx := item'])))\<rparr>"
      then obtain idx payload item' where
        idx: "idx < length items" and rt': "round_trips item'" and
        upd: "apply_update payload (items ! idx) = Inr item'" and
        st: "?s' = s\<lparr>data_file := Content (WellFormed (JArr (items[idx := item'])))\<rparr>"
        by blast
      from idx shape have "is_item (items ! idx)"
        by simp
      with upd have it: "is_item item'" "get item' ''id'' = get (items ! idx) ''id''"
        using apply_update_shape by blast+
      have "\<forall>i\<in>set (items[idx := item']). is_item i \<and> round_trips i"
        using assms(2) it(1) rt' by (auto dest!: set_update_subset_insert [THEN subsetD])
      with st put(1) idx it(2) show ?thesis
        by (intro exI [of _ "items[idx := item']"]) (auto simp: readItems_written)
    qed
  next
    case delete
    from delete_item_effect [OF delete(2) assms(1) rt] show ?thesis
    proof
      assume "?s' = s"
      with assms show ?thesis
        by (intro exI [of _ items]) simp
    next
      assume "\<exists>idx<length items.
           ?s' = s\<lparr>data_file := Content (WellFormed (JArr (take idx items @ drop (Suc idx) items)))\<rparr>"
      then obtain idx where idx: "idx < length items" and
        st: "?s' = s\<lparr>data_file := Content (WellFormed (JArr (take idx items @ drop (Suc idx) items)))\<rparr>"
        by blast
      have "\<forall>i\<in>set (take idx items @ drop (Suc idx) items). is_item i \<and> round_trips i"
        using assms(2) by (auto dest: in_set_takeD in_set_dropD)
      with st delete(1) idx show ?thesis
        by (intro exI [of _ "take idx items @ drop (Suc idx) items"]) (auto simp: readItems_written)
    qed
  qed
qed

theorem items_keep_fields_and_id_witness:
  "is_item mug \<and> is_item cap \<and> round_trips mug \<and> round_trips cap
   \<and> (\<exists>items'. readItems (snd (handleApi ''c3'' (post_req (WellFormed hat_payload)) shop)) = Inr (JArr items')
         \<and> list_all is_item items'
         \<and> (items' = [mug, cap]
            \<or> (\<exists>n p sz. items' = [mug, cap,
                  JObj [(''id'', JStr ''c3''), (''name'', n), (''price'', p), (''size'', sz)]])))"
proof -
  have rd: "readItems shop = Inr (JArr [mug, cap])"
    by (simp add: shop_def disk_def readItems_def)
  have shape: "\<forall>i\<in>set [mug, cap]. is_item i \<and> round_trips i"
    by (simp add: mug_def cap_def round_trips_def)
  have m: "req_method (post_req (WellFormed hat_payload)) = ''POST''"
    by (simp add: post_req_def)
  show ?thesis
    using items_keep_fields_and_id [OF rd shape, of "''c3''" "post_req (WellFormed hat_payload)"] shape
    by (auto simp: m list_all_iff)
qed

section \<open>Facts about paths\<close>

lemma split_nonempty [simp]: "split c s \<noteq> []"
  by (induction s) (auto split: list.splits)

lemma split_Cons_other:
  "x \<noteq> c \<Longrightarrow> split c (x # xs) = (x # hd (split c xs)) # tl (split c xs)"
  by (cases "split c xs") simp_all

lemma split_Cons_sep: "split c (c # xs) = [] # split c xs"
  by simp

lemma split_no_sep: "c \<notin> set s \<Longrightarrow> split c s = [s]"
  by (induction s) (auto simp add: split_Cons_other simp del: split.simps(2))

lemma split_sep: "split c (xs @ c # ys) = split c xs @ split c ys"
proof (induction xs)
  case Nil
  then show ?case by simp
next
  case (Cons x xs)
  show ?case
  proof (cases "x = c")
    case True
    with Cons show ?thesis by simp
  next
    case False
    have "split c xs \<noteq> []" by simp
    then obtain s ss where "split c xs = s # ss"
      by (cases "split c xs") auto
    with False Cons show ?thesis
      by simp
  qed
qed

lemma split_elems: "seg \<in> set (split c s) \<Longrightarrow> c \<notin> set seg"
proof (induction s arbitrary: seg)
  case Nil
  then show ?case by simp
next
  case (Cons x xs)
  show ?case
  proof (cases "x = c")
    case True
    with Cons show ?thesis by auto
  next
    case False
    obtain s ss where sp: "split c xs = s # ss"
      by (cases "split c xs") auto
    with False Cons.prems have "seg = x # s \<or> seg \<in> set ss"
      by simp
    with False sp Cons.IH show ?thesis
      by auto
  qed
qed

lemma hd_split: "hd (split c s) = takeWhile (\<lambda>x. x \<noteq> c) s"
proof (induction s)
  case Nil
  then show ?case by simp
next
  case (Cons x xs)
  then show ?case
    by (cases "x = c") (simp_all add: split_Cons_other split_Cons_sep del: split.simps(2))
qed

lemma tl_split_Cons: "set (tl (split c xs)) \<subseteq> set (tl (split c (x # xs)))"
proof (cases "x = c")
  case True
  have "set (tl (split c xs)) \<subseteq> set (split c xs)"
    by (cases "split c xs") auto
  with True show ?thesis
    by (simp add: split_Cons_sep del: split.simps(2))
next
  case False
  then show ?thesis
    by (simp add: split_Cons_other del: split.simps(2))
qed

lemma tl_split_suffix: "suffix r s \<Longrightarrow> set (tl (split c r)) \<subseteq> set (tl (split c s))"
proof (induction s)
  case Nil
  then show ?case by simp
next
  case (Cons x xs)
  from Cons.prems consider "r = x # xs" | "suffix r xs"
    by (auto simp: suffix_Cons)
  then show ?case
  proof cases
    case 1
    then show ?thesis by simp
  next
    case 2
    with Cons.IH tl_split_Cons [of c xs x] show ?thesis
      by blast
  qed
qed

lemma last_split_suffix:
  assumes "suffix t s" and "c \<notin> set t"
  shows "suffix t (last (split c s))"
proof -
  from assms(1) obtain zs where "s = zs @ t"
    by (auto simp: suffix_def)
  moreover have "suffix t (last (split c (zs @ t)))"
  proof (induction zs)
    case Nil
    with assms(2) show ?case by (simp add: split_no_sep)
  next
    case (Cons z zs)
    show ?case
    proof (cases "z = c")
      case True
      with Cons show ?thesis by simp
    next
      case False
      obtain s' ss where sp: "split c (zs @ t) = s' # ss"
        by (cases "split c (zs @ t)") auto
      with False Cons show ?thesis
        by (cases ss) (auto simp: suffix_Cons)
    qed
  qed
  ultimately show ?thesis by simp
qed

lemma join_with_append:
  "xs \<noteq> [] \<Longrightarrow> ys \<noteq> [] \<Longrightarrow> join_with sep (xs @ ys) = join_with sep xs @ sep @ join_with sep ys"
proof (induction sep xs rule: join_with.induct)
  case (1 sep)
  then show ?case by simp
next
  case (2 sep s)
  then show ?case by (cases ys) simp_all
next
  case (3 sep s t ss)
  then show ?case by simp
qed

lemma split_join:
  "segs \<noteq> [] \<Longrightarrow> \<forall>seg\<in>set segs. c \<notin> set seg \<Longrightarrow> split c (join_with [c] segs) = segs"
proof (induction "[c]" segs rule: join_with.induct)
  case 1
  then show ?case by simp
next
  case (2 s)
  then show ?case by (simp add: split_no_sep)
next
  case (3 s t ss)
  then show ?case
    by (simp add: split_sep split_no_sep)
qed

lemma normalizeString_append:
  "normalizeString a res (xs @ ys) = normalizeString a (normalizeString a res xs) ys"
  by (induction xs arbitrary: res) simp_all

lemma normalizeString_names:
  "''..'' \<notin> set ys \<Longrightarrow> normalizeString a res ys = res @ filter is_name ys"
  by (induction ys arbitrary: res) (auto simp: is_name_def)

lemma segment_cases:
  obtains (skip) "seg = [] \<or> seg = ''.''" | (up) "seg = ''..''" | (name) "is_name seg"
  by (auto simp: is_name_def)

lemma normalizeString_skip:
  "seg = [] \<or> seg = ''.'' \<Longrightarrow> normalizeString a res (seg # segs) = normalizeString a res segs"
  by auto

lemma normalizeString_name:
  "is_name seg \<Longrightarrow> normalizeString a res (seg # segs) = normalizeString a (res @ [seg]) segs"
  by (simp add: is_name_def)

lemma normalizeString_up:
  "normalizeString a res (''..'' # segs) =
     normalizeString a
       (if res = [] \<or> last res = ''..'' then (if a then res @ [''..''] else res) else butlast res) segs"
  by simp

lemma normalizeString_absolute:
  "list_all is_name res \<Longrightarrow> list_all is_name (normalizeString False res segs)"
proof (induction segs arbitrary: res)
  case Nil
  then show ?case by simp
next
  case (Cons seg segs)
  show ?case
  proof (cases seg rule: segment_cases)
    case skip
    with Cons show ?thesis
      by (simp only: normalizeString_skip)
  next
    case name
    with Cons.prems have "list_all is_name (res @ [seg])"
      by simp
    with Cons.IH name show ?thesis
      by (simp only: normalizeString_name)
  next
    case up
    have "list_all is_name (butlast res)"
      using Cons.prems by (auto simp: list_all_iff dest: in_set_butlastD)
    with Cons.prems have
      "list_all is_name (if res = [] \<or> last res = ''..'' then (if False then res @ [''..''] else res)
         else butlast res)"
      by simp
    from Cons.IH [OF this] up show ?thesis
      by (simp only: normalizeString_up)
  qed
qed

lemma normalizeString_relative:
  assumes "\<exists>k names. res = replicate k ''..'' @ names \<and> list_all is_name names"
  shows "\<exists>k names. normalizeString True res segs = replicate k ''..'' @ names \<and> list_all is_name names"
  using assms
proof (induction segs arbitrary: res)
  case Nil
  then show ?case by simp
next
  case (Cons seg segs)
  from Cons.prems obtain k names where
    res: "res = replicate k ''..'' @ names" and names: "list_all is_name names"
    by blast
  consider (skip) "seg = [] \<or> seg = ''.''" | (up) "seg = ''..''" | (name) "is_name seg"
    by (auto simp: is_name_def)
  then show ?case
  proof cases
    case skip
    with Cons.IH [OF Cons.prems] show ?thesis
      by auto
  next
    case name
    have "\<exists>k' names'. res @ [seg] = replicate k' ''..'' @ names' \<and> list_all is_name names'"
      using res names name by (intro exI [of _ k] exI [of _ "names @ [seg]"]) simp
    from Cons.IH [OF this] name show ?thesis
      by (simp add: is_name_def)
  next
    case up
    show ?thesis
    proof (cases "names = []")
      case True
      have "\<exists>k' names'. replicate (Suc k) ''..'' = replicate k' ''..'' @ names' \<and> list_all is_name names'"
        by (intro exI [of _ "Suc k"] exI [of _ "[]"]) simp
      from Cons.IH [OF this] have
        "\<exists>k' names'. normalizeString True (replicate (Suc k) ''..'') segs = replicate k' ''..'' @ names'
            \<and> list_all is_name names'" .
      moreover have "normalizeString True res (seg # segs) =
          normalizeString True (replicate (Suc k) ''..'') segs"
        using up True res by (cases k) (simp_all add: replicate_append_same)
      ultimately show ?thesis
        by simp
    next
      case False
      then have l: "last res = last names" "res \<noteq> []"
        using res by simp_all
      from False names have "is_name (last names)"
        by (simp add: list_all_iff)
      then have nl: "last res \<noteq> ''..''"
        using l by (simp add: is_name_def)
      have "\<exists>k' names'. butlast res = replicate k' ''..'' @ names' \<and> list_all is_name names'"
        using res names False
        by (intro exI [of _ k] exI [of _ "butlast names"])
          (auto simp: butlast_append list_all_iff dest: in_set_butlastD)
      from Cons.IH [OF this] up l nl show ?thesis
        by simp
    qed
  qed
qed

lemma normalizeString_elems:
  "set (normalizeString a res segs) \<subseteq> set res \<union> set segs \<union> {''..''}"
proof (induction segs arbitrary: res)
  case Nil
  then show ?case by auto
next
  case (Cons seg segs)
  show ?case
  proof (cases seg rule: segment_cases)
    case skip
    with Cons [of res] show ?thesis
      by (auto simp only: normalizeString_skip set_simps)
  next
    case name
    with Cons [of "res @ [seg]"] show ?thesis
      by (auto simp only: normalizeString_name set_simps set_append)
  next
    case up
    let ?res' = "if res = [] \<or> last res = ''..'' then (if a then res @ [''..''] else res) else butlast res"
    have "set ?res' \<subseteq> set res \<union> {''..''}"
    proof (cases "res = [] \<or> last res = ''..''")
      case True
      then have "?res' = res @ [''..''] \<or> ?res' = res"
        by simp
      then show ?thesis
        by (rule disjE) (simp_all add: subset_insertI)
    next
      case False
      then have "?res' = butlast res"
        by simp
      moreover have "set (butlast res) \<subseteq> set res"
        by (meson in_set_butlastD subsetI)
      ultimately show ?thesis
        by (simp add: subset_insertI2)
    qed
    with Cons [of ?res'] have
      "set (normalizeString a ?res' segs) \<subseteq> set res \<union> set segs \<union> {''..''}"
      by blast
    with up show ?thesis
      by (auto simp only: normalizeString_up set_simps)
  qed
qed

lemma strip_parents_step:
  "c = CHR ''/'' \<or> c = backslash \<Longrightarrow>
   strip_parents (CHR ''.'' # CHR ''.'' # c # rest) = strip_parents rest"
  by (subst strip_parents.simps) simp

lemma strip_parents_suffix: "suffix (strip_parents s) s"
proof (induction s rule: strip_parents.induct)
  case (1 s)
  show ?case
  proof (cases "\<exists>c rest. s = CHR ''.'' # CHR ''.'' # c # rest \<and> (c = CHR ''/'' \<or> c = backslash)")
    case True
    then obtain c rest where s: "s = CHR ''.'' # CHR ''.'' # c # rest" "c = CHR ''/'' \<or> c = backslash"
      by blast
    with "1.IH" [of "CHR ''.''" "[CHR ''.'', c] @ rest" "CHR ''.''" "c # rest" c rest]
    have "suffix (strip_parents rest) rest"
      by simp
    with s show ?thesis
      by (simp add: strip_parents_step suffix_Cons)
  next
    case False
    then have "strip_parents s = s"
      by (subst strip_parents.simps) (auto split: list.splits)
    then show ?thesis
      by simp
  qed
qed

lemma strip_parents_other:
  "\<not> (\<exists>c rest. s = CHR ''.'' # CHR ''.'' # c # rest \<and> (c = CHR ''/'' \<or> c = backslash)) \<Longrightarrow>
   strip_parents s = s"
  by (subst strip_parents.simps) (auto split: list.splits)

lemma strip_parents_no_parent: "\<not> prefix ''../'' (strip_parents s)"
proof (induction s rule: strip_parents.induct)
  case (1 s)
  show ?case
  proof (cases "\<exists>c rest. s = CHR ''.'' # CHR ''.'' # c # rest \<and> (c = CHR ''/'' \<or> c = backslash)")
    case True
    then obtain c rest where s: "s = CHR ''.'' # CHR ''.'' # c # rest" "c = CHR ''/'' \<or> c = backslash"
      by blast
    with "1.IH" [of "CHR ''.''" "[CHR ''.'', c] @ rest" "CHR ''.''" "c # rest" c rest]
    have "\<not> prefix ''../'' (strip_parents rest)"
      by simp
    with s show ?thesis
      by (simp add: strip_parents_step)
  next
    case False
    then have "strip_parents s = s"
      by (rule strip_parents_other)
    moreover from False have "\<not> prefix ''../'' s"
      by (auto simp: prefix_def)
    ultimately show ?thesis
      by simp
  qed
qed

lemma strip_parents_keeps_suffix:
  assumes "suffix t s" and "CHR ''/'' \<notin> set t" and "backslash \<notin> set t"
  shows "suffix t (strip_parents s)"
  using assms(1)
proof (induction s rule: strip_parents.induct)
  case (1 s)
  show ?case
  proof (cases "\<exists>c rest. s = CHR ''.'' # CHR ''.'' # c # rest \<and> (c = CHR ''/'' \<or> c = backslash)")
    case True
    then obtain c rest where s: "s = CHR ''.'' # CHR ''.'' # c # rest" "c = CHR ''/'' \<or> c = backslash"
      by blast
    from s(2) assms(2,3) have c: "c \<notin> set t"
      by auto
    from "1.prems" s(1) have "suffix t ([CHR ''.'', CHR ''.''] @ c # rest)"
      by simp
    then have "suffix t rest"
      using c by (auto simp: suffix_append suffix_Cons)
    with "1.IH" [of "CHR ''.''" "[CHR ''.'', c] @ rest" "CHR ''.''" "c # rest" c rest] s
    show ?thesis
      by (simp add: strip_parents_step)
  next
    case False
    then have "strip_parents s = s"
      by (rule strip_parents_other)
    with "1.prems" show ?thesis
      by simp
  qed
qed

lemma strip_parents_leading:
  "names \<noteq> [] \<Longrightarrow>
   strip_parents (join_with ''/'' (replicate k ''..'' @ names)) = strip_parents (join_with ''/'' names)"
proof (induction k)
  case 0
  then show ?case by simp
next
  case (Suc k)
  then obtain x xs where "replicate k ''..'' @ names = x # xs"
    by (cases "replicate k ''..'' @ names") auto
  then have "join_with ''/'' (replicate (Suc k) ''..'' @ names) =
      ''../'' @ join_with ''/'' (replicate k ''..'' @ names)"
    by simp
  with Suc show ?case
    by (simp add: strip_parents_step)
qed

lemma html_is_name: "suffix ''.html'' seg \<Longrightarrow> is_name seg"
  by (auto simp: is_name_def suffix_def)

lemma join_with_last: "segs \<noteq> [] \<Longrightarrow> suffix (last segs) (join_with sep segs)"
proof (induction sep segs rule: join_with.induct)
  case (1 sep)
  then show ?case by simp
next
  case (2 sep s)
  then show ?case by simp
next
  case (3 sep s t ss)
  then have "suffix (last (t # ss)) (join_with sep (t # ss))"
    by simp
  then show ?case
    by (simp add: suffix_append)
qed

text \<open>The normal form of a requested path that ends in \<open>.html\<close>.\<close>

lemma normalize_html:
  assumes "suffix ''.html'' requested"
  obtains R0 L where "suffix ''.html'' L"
    and "normalizeString (hd requested \<noteq> CHR ''/'') [] (split CHR ''/'' requested) = R0 @ [L]"
    and "path_normalize requested =
           (if hd requested = CHR ''/'' then ''/'' else []) @ join_with ''/'' (R0 @ [L])"
proof -
  let ?segs = "split CHR ''/'' requested"
  let ?a = "hd requested \<noteq> CHR ''/''"
  define L where "L = last ?segs"
  define R0 where "R0 = normalizeString ?a [] (butlast ?segs)"
  have ne: "requested \<noteq> []" and lst: "last requested = CHR ''l''"
    using assms by (auto simp: suffix_def)
  have L: "suffix ''.html'' L"
    unfolding L_def using assms by (rule last_split_suffix) simp
  then have name: "is_name L"
    by (rule html_is_name)
  have "?segs = butlast ?segs @ [L]"
    by (simp add: L_def)
  then have "normalizeString ?a [] ?segs = normalizeString ?a R0 [L]"
    unfolding R0_def by (metis normalizeString_append)
  also have "\<dots> = R0 @ [L]"
    by (simp only: normalizeString_name [OF name] normalizeString.simps(1))
  finally have R: "normalizeString ?a [] ?segs = R0 @ [L]" .
  have "suffix L (join_with ''/'' (R0 @ [L]))"
    using join_with_last [of "R0 @ [L]" "''/''"] by simp
  with L have p: "join_with ''/'' (R0 @ [L]) \<noteq> []"
    by (auto simp: suffix_def)
  have "path_normalize requested =
      (if hd requested = CHR ''/'' then ''/'' else []) @ join_with ''/'' (R0 @ [L])"
    using ne lst p R by (simp add: path_normalize_def Let_def)
  with L R show ?thesis
    by (rule that)
qed

lemma not_in_set_hd_tl: "xs \<noteq> [] \<Longrightarrow> hd xs \<noteq> x \<Longrightarrow> x \<notin> set (tl xs) \<Longrightarrow> x \<notin> set xs"
  by (cases xs) auto

lemma no_sep_normalized:
  "seg \<in> set (normalizeString a [] (split CHR ''/'' path)) \<Longrightarrow> CHR ''/'' \<notin> set seg"
  using normalizeString_elems [of a "[]" "split CHR ''/'' path"] split_elems [of seg "CHR ''/''" path]
  by auto

text \<open>The safe path has no \<open>..\<close> segment and still ends in \<open>.html\<close>.\<close>

lemma safe_path:
  assumes "suffix ''.html'' requested"
  shows "''..'' \<notin> set (split CHR ''/'' (strip_parents (path_normalize requested)))"
    and "suffix ''.html'' (strip_parents (path_normalize requested))"
proof -
  from assms obtain R0 L where L: "suffix ''.html'' L"
    and R: "normalizeString (hd requested \<noteq> CHR ''/'') [] (split CHR ''/'' requested) = R0 @ [L]"
    and N: "path_normalize requested =
           (if hd requested = CHR ''/'' then ''/'' else []) @ join_with ''/'' (R0 @ [L])"
    by (rule normalize_html)
  have nosep: "\<forall>seg\<in>set (R0 @ [L]). CHR ''/'' \<notin> set seg"
    using no_sep_normalized [of _ "hd requested \<noteq> CHR ''/''" requested] R by simp
  have "suffix L (join_with ''/'' (R0 @ [L]))"
    using join_with_last [of "R0 @ [L]" "''/''"] by simp
  with L have "suffix ''.html'' (join_with ''/'' (R0 @ [L]))"
    using suffix_order.trans by blast
  then have "suffix ''.html'' (path_normalize requested)"
    by (simp add: N suffix_append)
  then show html: "suffix ''.html'' (strip_parents (path_normalize requested))"
    by (rule strip_parents_keeps_suffix) (simp_all add: backslash_def)
  show "''..'' \<notin> set (split CHR ''/'' (strip_parents (path_normalize requested)))"
  proof (cases "hd requested = CHR ''/''")
    case True
    then have names: "list_all is_name (R0 @ [L])"
      using normalizeString_absolute [of "[]" "split CHR ''/'' requested"] R by simp
    from True have "path_normalize requested = CHR ''/'' # join_with ''/'' (R0 @ [L])"
      by (simp add: N)
    moreover have "strip_parents (CHR ''/'' # join_with ''/'' (R0 @ [L])) =
        CHR ''/'' # join_with ''/'' (R0 @ [L])"
      by (rule strip_parents_other) simp
    moreover have "split CHR ''/'' (join_with ''/'' (R0 @ [L])) = R0 @ [L]"
      using nosep by (intro split_join) simp_all
    ultimately have "split CHR ''/'' (strip_parents (path_normalize requested)) = [] # R0 @ [L]"
      by simp
    with names show ?thesis
      by (auto simp: list_all_iff is_name_def)
  next
    case False
    let ?S = "strip_parents (path_normalize requested)"
    from False R obtain k names where
      form: "R0 @ [L] = replicate k ''..'' @ names" and names: "list_all is_name names"
      using normalizeString_relative [of "[]" "split CHR ''/'' requested"] by auto
    from L have "is_name L"
      by (rule html_is_name)
    then have "L \<noteq> ''..''"
      by (simp add: is_name_def)
    with form have ne: "names \<noteq> []"
      by (metis append_Nil2 in_set_replicate last_in_set last_snoc snoc_eq_iff_butlast)
    have nosep': "\<forall>seg\<in>set names. CHR ''/'' \<notin> set seg"
      using nosep form by auto
    have S: "?S = strip_parents (join_with ''/'' names)"
      using False N form strip_parents_leading [OF ne] by simp
    have suf: "suffix ?S (join_with ''/'' names)"
      unfolding S by (rule strip_parents_suffix)
    have tl: "set (tl (split CHR ''/'' ?S)) \<subseteq> set names"
    proof -
      have "set (tl (split CHR ''/'' ?S)) \<subseteq> set (tl (split CHR ''/'' (join_with ''/'' names)))"
        using suf by (rule tl_split_suffix)
      also have "split CHR ''/'' (join_with ''/'' names) = names"
        using ne nosep' by (intro split_join) simp_all
      also have "set (tl names) \<subseteq> set names"
        by (cases names) auto
      finally show ?thesis .
    qed
    have hd: "hd (split CHR ''/'' ?S) \<noteq> ''..''"
    proof
      assume "hd (split CHR ''/'' ?S) = ''..''"
      then have tw: "takeWhile (\<lambda>x. x \<noteq> CHR ''/'') ?S = ''..''"
        by (simp add: hd_split)
      have "?S = takeWhile (\<lambda>x. x \<noteq> CHR ''/'') ?S @ dropWhile (\<lambda>x. x \<noteq> CHR ''/'') ?S"
        by simp
      with tw have dec: "?S = ''..'' @ dropWhile (\<lambda>x. x \<noteq> CHR ''/'') ?S"
        by simp
      show False
      proof (cases "dropWhile (\<lambda>x. x \<noteq> CHR ''/'') ?S")
        case Nil
        with dec have "?S = ''..''"
          by simp
        with html show False
          by (auto simp: suffix_def)
      next
        case (Cons d ds)
        then have "d = CHR ''/''"
          using hd_dropWhile [of "\<lambda>x. x \<noteq> CHR ''/''" ?S] by auto
        with dec Cons have "prefix ''../'' ?S"
          by (metis append.assoc append_Cons append_Nil prefixI)
        then show False
          using strip_parents_no_parent by blast
      qed
    qed
    have nn: "''..'' \<notin> set names"
      using names by (auto simp: list_all_iff is_name_def)
    have "''..'' \<notin> set (tl (split CHR ''/'' ?S))"
      using tl nn by (rule contra_subsetD)
    with split_nonempty hd show ?thesis
      by (rule not_in_set_hd_tl)
  qed
qed

section \<open>Static files stay inside the public directory\<close>

lemma filter_names: "list_all is_name xs \<Longrightarrow> filter is_name xs = xs"
  by (induction xs) simp_all

text \<open>Normalising an absolute path that has no \<open>..\<close> segment and does not end in a slash.\<close>

lemma path_normalize_plain:
  assumes "path \<noteq> []" and "hd path = CHR ''/''" and "last path \<noteq> CHR ''/''"
    and "''..'' \<notin> set (split CHR ''/'' path)"
    and "filter is_name (split CHR ''/'' path) \<noteq> []"
  shows "path_normalize path = CHR ''/'' # join_with ''/'' (filter is_name (split CHR ''/'' path))"
proof -
  let ?T = "filter is_name (split CHR ''/'' path)"
  have ns: "normalizeString False [] (split CHR ''/'' path) = ?T"
    using assms(4) by (simp add: normalizeString_names)
  have "last ?T \<in> set ?T"
    using assms(5) by (rule last_in_set)
  then have "last ?T \<noteq> []"
    by (simp add: is_name_def)
  moreover have "suffix (last ?T) (join_with ''/'' ?T)"
    using assms(5) by (rule join_with_last)
  ultimately have "join_with ''/'' ?T \<noteq> []"
    by (auto simp: suffix_def)
  with assms(1-3) ns show ?thesis
    by (simp add: path_normalize_def Let_def)
qed

lemma PUBLIC_DIR_form:
  assumes "dirname \<noteq> []" and "hd dirname = CHR ''/''"
  obtains P where "P \<noteq> []" and "list_all is_name P" and "\<forall>seg\<in>set P. CHR ''/'' \<notin> set seg"
    and "PUBLIC_DIR dirname = CHR ''/'' # join_with ''/'' P"
proof -
  let ?path = "dirname @ CHR ''/'' # ''public''"
  let ?D = "normalizeString False [] (split CHR ''/'' dirname)"
  have sp: "split CHR ''/'' ?path = split CHR ''/'' dirname @ [''public'']"
    by (simp only: split_sep) (simp add: split_no_sep)
  have pub: "is_name ''public''"
    by (simp add: is_name_def)
  have "normalizeString False [] (split CHR ''/'' ?path) = normalizeString False ?D [''public'']"
    by (simp only: sp normalizeString_append)
  also have "\<dots> = ?D @ [''public'']"
    by (simp only: normalizeString_name [OF pub] normalizeString.simps(1))
  finally have ns: "normalizeString False [] (split CHR ''/'' ?path) = ?D @ [''public'']" .
  have "suffix ''public'' (join_with ''/'' (?D @ [''public'']))"
    using join_with_last [of "?D @ [''public'']" "''/''"] by simp
  then have p: "join_with ''/'' (?D @ [''public'']) \<noteq> []"
    by (auto simp: suffix_def)
  have "PUBLIC_DIR dirname = path_normalize ?path"
    using assms(1) by (simp add: PUBLIC_DIR_def path_join_def)
  also have "\<dots> = CHR ''/'' # join_with ''/'' (?D @ [''public''])"
    using assms p ns by (simp add: path_normalize_def Let_def)
  finally have form: "PUBLIC_DIR dirname = CHR ''/'' # join_with ''/'' (?D @ [''public''])" .
  have names: "list_all is_name (?D @ [''public''])"
    using normalizeString_absolute [of "[]" "split CHR ''/'' dirname"] pub by simp
  have nosep: "\<forall>seg\<in>set (?D @ [''public'']). CHR ''/'' \<notin> set seg"
    using no_sep_normalized [of _ False dirname] by auto
  show ?thesis
    using _ names nosep form by (rule that) simp
qed

lemma path_join_inside:
  assumes "P \<noteq> []" and "list_all is_name P" and "\<forall>seg\<in>set P. CHR ''/'' \<notin> set seg"
    and "pub = CHR ''/'' # join_with ''/'' P"
    and "''..'' \<notin> set (split CHR ''/'' safe)"
    and "suffix ''.html'' safe"
  shows "inside pub (path_join [pub, safe])"
proof -
  let ?T = "filter is_name (split CHR ''/'' safe)"
  let ?path = "pub @ CHR ''/'' # safe"
  have safe: "safe \<noteq> []" "last safe = CHR ''l''"
    using assms(6) by (auto simp: suffix_def)
  have "suffix ''.html'' (last (split CHR ''/'' safe))"
    using assms(6) by (rule last_split_suffix) simp
  then have "is_name (last (split CHR ''/'' safe))"
    by (rule html_is_name)
  moreover have "last (split CHR ''/'' safe) \<in> set (split CHR ''/'' safe)"
    by simp
  ultimately have T: "?T \<noteq> []"
    by (auto simp: filter_empty_conv)
  have Tnames: "list_all is_name ?T"
    by (simp add: list_all_iff)
  have Tsep: "\<forall>seg\<in>set ?T. CHR ''/'' \<notin> set seg"
    using split_elems by fastforce
  have spP: "split CHR ''/'' (join_with ''/'' P) = P"
    using assms(1,3) by (intro split_join) simp_all
  have sp: "split CHR ''/'' ?path = [] # P @ split CHR ''/'' safe"
    by (simp only: assms(4) append_Cons split_Cons_sep split_sep spP)
  have "''..'' \<notin> set P"
    using assms(2) by (auto simp: list_all_iff is_name_def)
  with assms(5) have nodd: "''..'' \<notin> set (split CHR ''/'' ?path)"
    by (simp add: sp)
  have filt: "filter is_name (split CHR ''/'' ?path) = P @ ?T"
    using assms(2) by (simp add: sp filter_names is_name_def)
  have "path_join [pub, safe] = path_normalize ?path"
    using safe(1) assms(4) by (simp add: path_join_def)
  also have "\<dots> = CHR ''/'' # join_with ''/'' (P @ ?T)"
    using path_normalize_plain [of ?path] nodd safe assms(1,4) filt by simp
  also have "\<dots> = pub @ CHR ''/'' # join_with ''/'' ?T"
    using assms(1,4) T by (simp add: join_with_append)
  finally have res: "path_join [pub, safe] = pub @ CHR ''/'' # join_with ''/'' ?T" .
  have "split CHR ''/'' (join_with ''/'' ?T) = ?T"
    using T Tsep by (intro split_join) simp_all
  with Tnames show ?thesis
    by (simp add: inside_def res)
qed

text \<open>
  C6. For every request path that the static server accepts (one ending in \<open>.html\<close>, or
  \<open>/\<close>), the path it reads (the request path normalized, stripped of leading parent
  sequences and joined to the public root) lies inside the public directory: it is the public
  directory followed by one or more names, none of them \<open>..\<close>. This holds whatever
  \<open>..\<close> segments the request path has, where \<open>__dirname\<close> is an absolute path.
\<close>

theorem static_path_inside_public:
  assumes "dirname \<noteq> []" and "hd dirname = CHR ''/''"
    and "static_file_path dirname parsed = Some filePath"
  shows "inside (PUBLIC_DIR dirname) filePath"
proof -
  define requested where "requested = (if parsed = ''/'' then ''/index.html'' else parsed)"
  from assms(3) have html: "suffix ''.html'' requested"
    and fp: "filePath = path_join [PUBLIC_DIR dirname, strip_parents (path_normalize requested)]"
    by (auto simp: static_file_path_def Let_def endsWith_def requested_def split: if_splits)
  from assms(1,2) obtain P where "P \<noteq> []" "list_all is_name P" "\<forall>seg\<in>set P. CHR ''/'' \<notin> set seg"
    "PUBLIC_DIR dirname = CHR ''/'' # join_with ''/'' P"
    by (rule PUBLIC_DIR_form)
  then show ?thesis
    unfolding fp using safe_path [OF html] by (rule path_join_inside)
qed

theorem static_path_inside_public_witness:
  "static_file_path ''/srv/app'' ''/../../etc/passwd.html'' = Some ''/srv/app/public/etc/passwd.html''
   \<and> inside (PUBLIC_DIR ''/srv/app'') ''/srv/app/public/etc/passwd.html''
   \<and> static_file_path ''/srv/app'' ''../../items.html'' = Some ''/srv/app/public/items.html''
   \<and> inside (PUBLIC_DIR ''/srv/app'') ''/srv/app/public/items.html''"
proof -
  have a: "''/srv/app'' \<noteq> []" "hd ''/srv/app'' = CHR ''/''"
    by simp_all
  have p1: "static_file_path ''/srv/app'' ''/../../etc/passwd.html'' = Some ''/srv/app/public/etc/passwd.html''"
    by code_simp
  have p2: "static_file_path ''/srv/app'' ''../../items.html'' = Some ''/srv/app/public/items.html''"
    by code_simp
  show ?thesis
    using static_path_inside_public [OF a p1] static_path_inside_public [OF a p2] p1 p2
    by simp
qed

end
